theory Spec2Isabelle
  imports Complex_Main "HOL-Library.Char_ord" "HOL-Library.List_Lexorder" "HOL-Library.Word"
begin

section \<open>Python values and exceptions\<close>

text \<open>
  The exceptions the module can raise.  \<open>FileNotFoundError\<close> and
  \<open>PermissionError\<close> are subclasses of \<open>OSError\<close>; \<open>OtherOSError\<close> stands for
  every other \<open>OSError\<close> (an I/O error, \<open>NotADirectoryError\<close>, ...).  A \<open>TypeError\<close>
  or \<open>ValueError\<close> carries what its message is about: the argument that was refused,
  or the timestamp that \<open>datetime\<close> cannot represent.
\<close>

datatype oserror = PermissionError | FileNotFoundError | OtherOSError

datatype cause = Arg_path | Arg_depth | Arg_human_readable | Arg_logger | Timestamp

datatype py_error = TypeError cause | ValueError cause | OverflowError | OSError oserror

text \<open>What \<open>datetime.fromtimestamp\<close> raises for a timestamp out of its range.\<close>

datatype time_error = Time_ValueError | Time_OverflowError | Time_OSError oserror

section \<open>Formatting numbers\<close>

text \<open>\<open>str(n)\<close> of a Python integer, in decimal.\<close>

definition digit_char :: "int \<Rightarrow> char" where
  "digit_char d = ''0123456789'' ! nat d"

function str_nat :: "int \<Rightarrow> string" where
  "str_nat n = (if n < 10 then [digit_char n]
                else str_nat (n div 10) @ [digit_char (n mod 10)])"
  by pat_completeness auto
termination
  by (relation "measure nat") auto

declare str_nat.simps [simp del]

definition str_int :: "int \<Rightarrow> string" where
  "str_int i = (if i < 0 then ''-'' @ str_nat (- i) else str_nat i)"

text \<open>
  A Python float is an IEEE double; every finite one is a rational number, and the
  model keeps it as that number.  Converting an integer to a float rounds it to 53
  significant bits, ties to even, and raises \<open>OverflowError\<close> when the result does not
  fit.  Dividing by \<open>1024.0\<close> is exact on the values met here.
\<close>

function bit_length :: "int \<Rightarrow> nat" where
  "bit_length n = (if n \<le> 0 then 0 else Suc (bit_length (n div 2)))"
  by pat_completeness auto
termination
  by (relation "measure nat") auto

declare bit_length.simps [simp del]

definition round_half_even :: "int \<Rightarrow> int \<Rightarrow> int" where
  "round_half_even a b =
     (let q = a div b; r = a mod b
      in if b < 2 * r \<or> (2 * r = b \<and> odd q) then q + 1 else q)"

definition float_of_int :: "int \<Rightarrow> py_error + rat" where
  "float_of_int i =
     (let e = bit_length \<bar>i\<bar> - 53;
          m = round_half_even \<bar>i\<bar> (2 ^ e) * 2 ^ e
      in if 2 ^ 1024 \<le> m then Inl OverflowError
         else Inr (of_int (sgn i * m)))"

text \<open>The format \<open>{x:.1f}\<close>: the exact value rounded to one decimal, ties to even.\<close>

definition format_1f :: "rat \<Rightarrow> string" where
  "format_1f x =
     (let (a, b) = quotient_of x;
          t = round_half_even (10 * \<bar>a\<bar>) b
      in (if a < 0 then ''-'' else '''') @ str_nat (t div 10) @ ''.'' @ str_nat (t mod 10))"

section \<open>human_readable_size\<close>

text \<open>
  The loop over \<open>["KB", "MB", "GB", "TB"]\<close>: divide, then return if below 1024.  When
  the units are used up the value is printed as it stands, with the unit \<open>PB\<close>.
\<close>

fun scale_units :: "rat \<Rightarrow> string list \<Rightarrow> string" where
  "scale_units x [] = format_1f x @ '' PB''"
| "scale_units x (unit # units) =
     (let x' = x / 1024
      in if x' < 1024 then format_1f x' @ '' '' @ unit else scale_units x' units)"

definition human_readable_size :: "int \<Rightarrow> py_error + string" where
  "human_readable_size size_bytes =
     (if size_bytes < 1024 then Inr (str_int size_bytes @ '' B'')
      else case float_of_int size_bytes of
             Inl err \<Rightarrow> Inl err
           | Inr x \<Rightarrow> Inr (scale_units x [''KB'', ''MB'', ''GB'', ''TB'']))"

text \<open>The unit names of the specification, smallest first.\<close>

definition unit_names :: "string list" where
  "unit_names = [''B'', ''KB'', ''MB'', ''GB'', ''TB'', ''PB'']"

section \<open>Trees\<close>

text \<open>
  The module builds plain Python dictionaries: a \<open>DirTree\<close> maps a name to a
  \<open>FileMetadata\<close> dictionary or to another \<open>DirTree\<close>, and nothing tells the two
  apart but their contents.  A dictionary keeps its keys in insertion order; assigning
  to a key that is present replaces the value where it stands.

  A float that the module only passes on (\<open>st_mtime\<close>) is kept as its \<open>repr\<close>, the
  shortest decimal text that reads back as the same double; \<open>json.dumps\<close> writes a
  float as that text.
\<close>

datatype pyfloat = Float_repr string

datatype pyval = PInt int | PFloat pyfloat | PStr string | PDict "(string \<times> pyval) list"

type_synonym pydict = "(string \<times> pyval) list"

fun dict_set :: "(string \<times> 'v) list \<Rightarrow> string \<Rightarrow> 'v \<Rightarrow> (string \<times> 'v) list" where
  "dict_set [] k v = [(k, v)]"
| "dict_set ((k', v') # kvs) k v =
     (if k' = k then (k, v) # kvs else (k', v') # dict_set kvs k v)"

section \<open>Paths and arguments\<close>

text \<open>
  A path is the list of its components (an absolute path starts with the empty
  component, the root); \<open>Path s\<close> parses a string, \<open>name\<close> is the last component.
\<close>

type_synonym path = "string list"

fun split_sep :: "string \<Rightarrow> string list" where
  "split_sep [] = [[]]"
| "split_sep (c # cs) =
     (if c = CHR ''/'' then [] # split_sep cs
      else (case split_sep cs of [] \<Rightarrow> [[c]] | w # ws \<Rightarrow> (c # w) # ws))"

definition Path :: "string \<Rightarrow> path" where
  "Path s = (if take 1 s = ''/'' then [[]] else [])
            @ filter (\<lambda>w. w \<noteq> [] \<and> w \<noteq> ''.'') (split_sep s)"

definition name :: "path \<Rightarrow> string" where
  "name p = (if p = [] then [] else last p)"

text \<open>
  Strings are compared as Python compares them, character by character.  The sort key
  of the module is the \<open>str.lower\<close> of the Python at hand, which folds by the rules of
  Unicode: it is a parameter of the environment below.  On ASCII names, as in the
  examples, it is this function.
\<close>

definition ascii_lower_char :: "char \<Rightarrow> char" where
  "ascii_lower_char c = (if CHR ''A'' \<le> c \<and> c \<le> CHR ''Z''
                         then char_of (of_char c + (32 :: nat)) else c)"

definition ascii_lower :: "string \<Rightarrow> string" where
  "ascii_lower s = map ascii_lower_char s"

text \<open>
  The arguments as Python passes them: any object.  \<open>isinstance(x, int)\<close> holds of
  integers and of booleans (\<open>bool\<close> is a subclass of \<open>int\<close>, \<open>True\<close> is 1 and \<open>False\<close>
  is 0); \<open>isinstance(x, bool)\<close> holds of booleans only.
\<close>

datatype pyobj = PyNone | PyBool bool | PyInt int | PyFloat rat | PyStr string
  | PyPath path | PyLogger

fun truthy :: "pyobj \<Rightarrow> bool" where
  "truthy PyNone = False"
| "truthy (PyBool b) = b"
| "truthy (PyInt i) = (i \<noteq> 0)"
| "truthy (PyFloat x) = (x \<noteq> 0)"
| "truthy (PyStr s) = (s \<noteq> [])"
| "truthy (PyPath p) = True"
| "truthy PyLogger = True"

fun as_path :: "pyobj \<Rightarrow> path option" where
  "as_path (PyStr s) = Some (Path s)"
| "as_path (PyPath p) = Some p"
| "as_path _ = None"

fun as_int :: "pyobj \<Rightarrow> int option" where
  "as_int (PyInt i) = Some i"
| "as_int (PyBool b) = Some (if b then 1 else 0)"
| "as_int _ = None"

fun as_bool :: "pyobj \<Rightarrow> bool option" where
  "as_bool (PyBool b) = Some b"
| "as_bool _ = None"

section \<open>The environment\<close>

text \<open>
  What the library calls of the module answer, one function per call.  \<open>exists\<close>,
  \<open>is_file\<close> and \<open>is_dir\<close> answer \<open>False\<close> for an entry that is not there and, as
  pathlib does up to Python 3.12, raise every other \<open>OSError\<close> of the underlying
  \<open>stat\<close> (a \<open>PermissionError\<close> for an entry of a directory that may not be searched);
  \<open>iterdir\<close> and \<open>stat\<close> return or raise an \<open>OSError\<close>.  The answers are independent
  of each other, so an entry may be a directory when it is listed and gone when it is
  opened.  \<open>st_size\<close> is a signed 64-bit \<open>off_t\<close>, \<open>st_mtime\<close> a float.  \<open>local_time\<close>
  is \<open>datetime.fromtimestamp(t).strftime("%Y-%m-%d %H:%M")\<close> in the local time zone,
  which raises \<open>ValueError\<close>, \<open>OverflowError\<close> or \<open>OSError\<close> for a timestamp out of
  its range.  \<open>str_lower\<close> is \<open>str.lower\<close>.
\<close>

record filesystem =
  path_exists :: "path \<Rightarrow> oserror + bool"
  path_is_file :: "path \<Rightarrow> oserror + bool"
  path_is_dir :: "path \<Rightarrow> oserror + bool"
  path_iterdir :: "path \<Rightarrow> oserror + string list"
  path_stat :: "path \<Rightarrow> oserror + (64 word \<times> pyfloat)"
  local_time :: "pyfloat \<Rightarrow> time_error + string"
  str_lower :: "string \<Rightarrow> string"

text \<open>The records sent to the logger, in the order they are sent.\<close>

datatype message =
    File_does_not_exist path
  | Cannot_access_file_info path oserror
  | Permission_denied path
  | Skipping_entry path

datatype log_record = Warning message | Debug message

type_synonym 'a outcome = "(py_error + 'a) \<times> log_record list"

section \<open>get_file_info\<close>

definition human_readable_time :: "filesystem \<Rightarrow> pyfloat \<Rightarrow> py_error + string" where
  "human_readable_time fs timestamp =
     (case local_time fs timestamp of
        Inl Time_ValueError \<Rightarrow> Inl (ValueError Timestamp)
      | Inl Time_OverflowError \<Rightarrow> Inl OverflowError
      | Inl (Time_OSError e) \<Rightarrow> Inl (OSError e)
      | Inr text \<Rightarrow> Inr text)"

text \<open>
  The clause \<open>except (OSError, PermissionError)\<close> around the body of the \<open>try\<close>: an
  \<open>OSError\<close> becomes a warning and the empty dictionary, any other exception goes on
  to the caller.  The call \<open>path.exists()\<close> stands before the \<open>try\<close>.
\<close>

definition except_oserror :: "path \<Rightarrow> py_error \<Rightarrow> pyval outcome" where
  "except_oserror p err =
     (case err of
        OSError e \<Rightarrow> (Inr (PDict []), [Warning (Cannot_access_file_info p e)])
      | _ \<Rightarrow> (Inl err, []))"

definition get_file_info :: "filesystem \<Rightarrow> pyobj \<Rightarrow> bool \<Rightarrow> pyval outcome" where
  "get_file_info fs path human_readable =
     (case as_path path of
        None \<Rightarrow> (Inl (TypeError Arg_path), [])
      | Some p \<Rightarrow>
          (case path_exists fs p of
             Inl e \<Rightarrow> (Inl (OSError e), [])
           | Inr found \<Rightarrow>
               if \<not> found then (Inr (PDict []), [Warning (File_does_not_exist p)])
               else
                 (case path_stat fs p of
                    Inl e \<Rightarrow> except_oserror p (OSError e)
                  | Inr (st_size, st_mtime) \<Rightarrow>
                      if human_readable then
                        (case human_readable_size (sint st_size) of
                           Inl err \<Rightarrow> except_oserror p err
                         | Inr size_str \<Rightarrow>
                             (case human_readable_time fs st_mtime of
                                Inl err \<Rightarrow> except_oserror p err
                              | Inr time_str \<Rightarrow>
                                  (Inr (PDict [(''size'', PStr size_str),
                                               (''modified_time'', PStr time_str)]), [])))
                      else (Inr (PDict [(''size'', PInt (sint st_size)),
                                        (''modified_time'', PFloat st_mtime)]), []))))"

section \<open>get_dir_tree\<close>

text \<open>
  The recursion of \<open>get_dir_tree\<close> follows the filesystem, which need not be finite:
  \<open>fuel\<close> bounds the number of nested calls, and \<open>None\<close> is the call that has not
  returned within it.  \<open>scan_entries\<close> is the loop over the sorted entries, \<open>tree\<close>
  the dictionary built so far.  A result carries the records logged up to the return
  or the raise.
\<close>

definition logged :: "log_record list \<Rightarrow> 'a outcome option \<Rightarrow> 'a outcome option" where
  "logged lg r = map_option (\<lambda>(res, lg'). (res, lg @ lg')) r"

fun get_dir_tree ::
    "nat \<Rightarrow> filesystem \<Rightarrow> pyobj \<Rightarrow> pyobj \<Rightarrow> pyobj \<Rightarrow> pyobj \<Rightarrow> pydict outcome option"
  and scan_entries ::
    "nat \<Rightarrow> filesystem \<Rightarrow> int \<Rightarrow> bool \<Rightarrow> path list \<Rightarrow> pydict \<Rightarrow> pydict outcome option"
where
  "get_dir_tree 0 fs path depth human_readable logger = None"
| "get_dir_tree (Suc fuel) fs path depth human_readable logger =
     (case as_path path of
        None \<Rightarrow> Some (Inl (TypeError Arg_path), [])
      | Some p \<Rightarrow>
     (case as_int depth of
        None \<Rightarrow> Some (Inl (TypeError Arg_depth), [])
      | Some d \<Rightarrow>
     if d < - 1 then Some (Inl (ValueError Arg_depth), [])
     else
     (case as_bool human_readable of
        None \<Rightarrow> Some (Inl (TypeError Arg_human_readable), [])
      | Some hr \<Rightarrow>
     if truthy logger \<and> logger \<noteq> PyLogger then Some (Inl (TypeError Arg_logger), [])
     else
     (case path_exists fs p of
        Inl e \<Rightarrow> Some (Inl (OSError e), [])
      | Inr found \<Rightarrow>
     if \<not> found then Some (Inl (OSError FileNotFoundError), [])
     else
     (case path_is_file fs p of
        Inl e \<Rightarrow> Some (Inl (OSError e), [])
      | Inr regular \<Rightarrow>
     if regular then
       (case get_file_info fs (PyPath p) hr of
          (Inl err, lg) \<Rightarrow> Some (Inl err, lg)
        | (Inr info, lg) \<Rightarrow> Some (Inr [(name p, info)], lg))
     else if d = 0 then Some (Inr [], [])
     else
       (case path_iterdir fs p of
          Inl PermissionError \<Rightarrow> Some (Inr [], [Warning (Permission_denied p)])
        | Inl e \<Rightarrow> Some (Inl (OSError e), [])
        | Inr names \<Rightarrow>
            scan_entries fuel fs d hr
              (sort_key (\<lambda>q. str_lower fs (name q)) (map (\<lambda>n. p @ [n]) names)) []))))))"
| "scan_entries fuel fs d hr [] tree = Some (Inr tree, [])"
| "scan_entries fuel fs d hr (entry # entries) tree =
     (case path_is_dir fs entry of
        Inl e \<Rightarrow> Some (Inl (OSError e), [])
      | Inr directory \<Rightarrow>
     if directory then
        (case get_dir_tree fuel fs (PyPath entry) (PyInt (if d > 0 then d - 1 else - 1))
                (PyBool hr) PyLogger of
           None \<Rightarrow> None
         | Some (Inl err, lg) \<Rightarrow> Some (Inl err, lg)
         | Some (Inr subtree, lg) \<Rightarrow>
             logged lg (scan_entries fuel fs d hr entries
                          (dict_set tree (name entry) (PDict subtree))))
     else
     (case path_is_file fs entry of
        Inl e \<Rightarrow> Some (Inl (OSError e), [])
      | Inr regular \<Rightarrow>
     if regular then
        (case get_file_info fs (PyPath entry) hr of
           (Inl err, lg) \<Rightarrow> Some (Inl err, lg)
         | (Inr info, lg) \<Rightarrow>
             logged lg (scan_entries fuel fs d hr entries (dict_set tree (name entry) info)))
     else logged [Debug (Skipping_entry entry)] (scan_entries fuel fs d hr entries tree)))"

section \<open>Example filesystems\<close>

text \<open>
  A directory \<open>r\<close> with a file \<open>a.txt\<close> of 5 bytes, a directory \<open>b\<close> that may not be
  listed, a directory \<open>Docs\<close> holding a file \<open>x\<close> of 2048 bytes, and a socket.
\<close>

definition fs_example :: filesystem where
  "fs_example =
     \<lparr> path_exists = (\<lambda>p. Inr (p \<in> set [[''r''], [''r'', ''a.txt''], [''r'', ''b''],
                                [''r'', ''Docs''], [''r'', ''Docs'', ''x''], [''r'', ''sock'']])),
       path_is_file = (\<lambda>p. Inr (p \<in> set [[''r'', ''a.txt''], [''r'', ''Docs'', ''x'']])),
       path_is_dir = (\<lambda>p. Inr (p \<in> set [[''r''], [''r'', ''b''], [''r'', ''Docs'']])),
       path_iterdir = (\<lambda>p. if p = [''r''] then Inr [''sock'', ''b'', ''a.txt'', ''Docs'']
                          else if p = [''r'', ''b''] then Inl PermissionError
                          else if p = [''r'', ''Docs''] then Inr [''x'']
                          else Inl OtherOSError),
       path_stat = (\<lambda>p. if p = [''r'', ''a.txt''] then Inr (5, Float_repr ''1762813800.5'')
                       else if p = [''r'', ''Docs'', ''x''] then Inr (2048, Float_repr ''1762813860.0'')
                       else Inl FileNotFoundError),
       local_time = (\<lambda>t. Inr ''2025-11-10 22:30''),
       str_lower = ascii_lower \<rparr>"

text \<open>A tree without end: every path is a directory with one child \<open>a\<close>.\<close>

definition fs_endless :: filesystem where
  "fs_endless =
     \<lparr> path_exists = (\<lambda>p. Inr True),
       path_is_file = (\<lambda>p. Inr False),
       path_is_dir = (\<lambda>p. Inr True),
       path_iterdir = (\<lambda>p. Inr [''a'']),
       path_stat = (\<lambda>p. Inl FileNotFoundError),
       local_time = (\<lambda>t. Inr []),
       str_lower = ascii_lower \<rparr>"



definition fs_unsearchable :: filesystem where
  "fs_unsearchable = fs_example
     \<lparr> path_exists := (\<lambda>p. if p = [''r'', ''Docs'', ''x''] then Inl PermissionError
                            else path_exists fs_example p),
       path_is_file := (\<lambda>p. if p = [''r'', ''Docs'', ''x''] then Inl PermissionError
                            else path_is_file fs_example p),
       path_is_dir := (\<lambda>p. if p = [''r'', ''Docs'', ''x''] then Inl PermissionError
                            else path_is_dir fs_example p),
       path_stat := (\<lambda>p. if p = [''r'', ''Docs'', ''x''] then Inl PermissionError
                            else path_stat fs_example p) \<rparr>"

definition fs_far_future :: filesystem where
  "fs_far_future = fs_example
     \<lparr> path_stat := (\<lambda>p. if p = [''r'', ''a.txt''] then Inr (5, Float_repr ''1000000000000.0'')
                          else path_stat fs_example p),
       local_time := (\<lambda>t. if t = Float_repr ''1000000000000.0'' then Inl Time_ValueError
                           else Inr ''2025-11-10 22:30'') \<rparr>"

section \<open>Notions of the specification\<close>

text \<open>
  In the dictionaries the module builds, a DirectoryNode is a dictionary whose values
  are all dictionaries (the empty one included); the values of a file's metadata are
  not.
\<close>

fun is_dict :: "pyval \<Rightarrow> bool" where
  "is_dict (PDict kvs) = True"
| "is_dict _ = False"

text \<open>
  Every key of a tree built for the directory \<open>p\<close> names a child of \<open>p\<close> that is a
  directory, with a tree of the same kind below it, or else a regular file.
\<close>

fun only_files_and_dirs :: "filesystem \<Rightarrow> path \<Rightarrow> pydict \<Rightarrow> bool" where
  "only_files_and_dirs fs p [] = True"
| "only_files_and_dirs fs p ((k, v) # kvs) =
     ((if path_is_dir fs (p @ [k]) = Inr True
       then (case v of PDict sub \<Rightarrow> only_files_and_dirs fs (p @ [k]) sub | _ \<Rightarrow> False)
       else path_is_file fs (p @ [k]) = Inr True)
      \<and> only_files_and_dirs fs p kvs)"

text \<open>
  In every DirectoryNode of the tree the keys are distinct and in ascending order of
  their lower-case forms, \<open>lower\<close> being \<open>str.lower\<close>.
\<close>

fun ordered_nodes :: "(string \<Rightarrow> string) \<Rightarrow> pyval \<Rightarrow> bool" where
  "ordered_nodes lower (PDict kvs) =
     ((list_all (\<lambda>(k, v). is_dict v) kvs \<longrightarrow>
         distinct (map fst kvs) \<and> sorted (map (\<lambda>(k, v). lower k) kvs))
      \<and> list_all (\<lambda>(k, v). ordered_nodes lower v) kvs)"
| "ordered_nodes lower v = True"

text \<open>
  The tree cut after \<open>n\<close> levels of names: the entries of the first \<open>n\<close> levels stay
  and a DirectoryNode at level \<open>n\<close> becomes the empty node.
\<close>

fun truncate_tree :: "nat \<Rightarrow> pydict \<Rightarrow> pydict"
  and truncate_value :: "nat \<Rightarrow> pyval \<Rightarrow> pyval"
where
  "truncate_tree 0 tree = []"
| "truncate_tree (Suc n) tree = map (\<lambda>(k, v). (k, truncate_value n v)) tree"
| "truncate_value n (PDict sub) =
     (if list_all (\<lambda>(k, v). is_dict v) sub then PDict (truncate_tree n sub) else PDict sub)"
| "truncate_value n v = v"

text \<open>
  The invariant of the loop over the sorted entries: the keys stored so far are
  distinct and sorted, and no later entry sorts before one of them.
\<close>

definition scan_ordered :: "(string \<Rightarrow> string) \<Rightarrow> pydict \<Rightarrow> path list \<Rightarrow> bool" where
  "scan_ordered lower tree entries \<longleftrightarrow>
     distinct (map fst tree) \<and> sorted (map lower (map fst tree))
     \<and> (\<forall>k \<in> fst ` set tree. \<forall>e \<in> set entries. lower k \<le> lower (name e))
     \<and> sorted (map (\<lambda>q. lower (name q)) entries)"

text \<open>
  The entry a log record is about; an entry that is neither a directory nor a regular
  file is special.  Debug records are about special entries and warnings are not.
\<close>

fun subject :: "message \<Rightarrow> path" where
  "subject (File_does_not_exist q) = q"
| "subject (Cannot_access_file_info q e) = q"
| "subject (Permission_denied q) = q"
| "subject (Skipping_entry q) = q"

definition special :: "filesystem \<Rightarrow> path \<Rightarrow> bool" where
  "special fs q \<longleftrightarrow> path_is_dir fs q = Inr False \<and> path_is_file fs q = Inr False"

fun level_ok :: "filesystem \<Rightarrow> log_record \<Rightarrow> bool" where
  "level_ok fs (Debug m) = special fs (subject m)"
| "level_ok fs (Warning m) = (\<not> special fs (subject m))"


section \<open>dir_tree_to_json\<close>

text \<open>
  \<open>json.dumps(tree, indent=4, ensure_ascii=False)\<close> of Python's standard library, on
  the values a tree holds.  A string is written between double quotes, with a
  backslash escape for the quote, the backslash and the control characters, and every
  other character as it is; an integer in decimal; a float by its \<open>repr\<close>; an empty
  dictionary as \<open>{}\<close>; any other dictionary with one item per line, in the order of
  the dictionary, indented by four spaces per level.
\<close>

definition hex_digit :: "nat \<Rightarrow> char" where
  "hex_digit n = ''0123456789abcdef'' ! n"

definition escape_char :: "char \<Rightarrow> string" where
  "escape_char c =
     (if c = CHR 0x5C then [CHR 0x5C, CHR 0x5C]
      else if c = CHR 0x22 then [CHR 0x5C, CHR 0x22]
      else if c = CHR 0x08 then [CHR 0x5C, CHR ''b'']
      else if c = CHR 0x0C then [CHR 0x5C, CHR ''f'']
      else if c = CHR 0x0A then [CHR 0x5C, CHR ''n'']
      else if c = CHR 0x0D then [CHR 0x5C, CHR ''r'']
      else if c = CHR 0x09 then [CHR 0x5C, CHR ''t'']
      else if (of_char c :: nat) < 32
        then [CHR 0x5C, CHR ''u'', CHR ''0'', CHR ''0'',
              hex_digit (of_char c div 16), hex_digit (of_char c mod 16)]
      else [c])"

definition encode_string :: "string \<Rightarrow> string" where
  "encode_string s = CHR 0x22 # concat (map escape_char s) @ [CHR 0x22]"

definition newline_indent :: "nat \<Rightarrow> string" where
  "newline_indent lvl = CHR 0x0A # replicate (4 * lvl) CHR '' ''"

text \<open>
  The encoder's loop over the items of a dictionary: \<open>first\<close> is the flag that keeps the
  separator from being written before the first item.
\<close>

fun encode_value :: "nat \<Rightarrow> pyval \<Rightarrow> string"
  and encode_items :: "bool \<Rightarrow> nat \<Rightarrow> (string \<times> pyval) list \<Rightarrow> string"
where
  "encode_value lvl (PInt i) = str_int i"
| "encode_value lvl (PFloat (Float_repr r)) = r"
| "encode_value lvl (PStr s) = encode_string s"
| "encode_value lvl (PDict []) = ''{}''"
| "encode_value lvl (PDict (kv # kvs)) =
     ''{'' @ newline_indent (Suc lvl) @ encode_items True (Suc lvl) (kv # kvs)
     @ newline_indent lvl @ ''}''"
| "encode_items first lvl [] = []"
| "encode_items first lvl ((k, v) # kvs) =
     (if first then [] else '','' @ newline_indent lvl)
     @ encode_string k @ '': '' @ encode_value lvl v @ encode_items False lvl kvs"

definition dir_tree_to_json :: "pydict \<Rightarrow> string" where
  "dir_tree_to_json tree = encode_value 0 (PDict tree)"

section \<open>Reading the text back\<close>

text \<open>
  Modelled from the spec: the generic, order-preserving structured-data parser of the
  round-trip property, which the repository does not contain.  It reads
  JSON text into the same values: whitespace between tokens, strings with their
  escapes, numbers (an integer literal becomes an integer, any other number a float
  with that text as its \<open>repr\<close>), and objects, whose items are stored in an ordered
  dictionary in the order they are read.  \<open>fuel\<close> bounds the nesting of calls.
\<close>

definition is_ws :: "char \<Rightarrow> bool" where
  "is_ws c \<longleftrightarrow> c = CHR '' '' \<or> c = CHR 0x0A \<or> c = CHR 0x0D \<or> c = CHR 0x09"

definition skip_ws :: "string \<Rightarrow> string" where
  "skip_ws s = dropWhile is_ws s"

definition is_digit :: "char \<Rightarrow> bool" where
  "is_digit c \<longleftrightarrow> c \<in> set ''0123456789''"

definition is_num_char :: "char \<Rightarrow> bool" where
  "is_num_char c \<longleftrightarrow> is_digit c \<or> c \<in> set ''+-.eE''"

definition digit_value :: "char \<Rightarrow> int" where
  "digit_value c = int (of_char c) - 48"

definition int_of_digits :: "string \<Rightarrow> int" where
  "int_of_digits s = foldl (\<lambda>a c. 10 * a + digit_value c) 0 s"

definition is_int_literal :: "string \<Rightarrow> bool" where
  "is_int_literal s =
     (case s of
        [] \<Rightarrow> False
      | c # cs \<Rightarrow> if c = CHR ''-'' then cs \<noteq> [] \<and> list_all is_digit cs
                  else list_all is_digit (c # cs))"

definition int_of_literal :: "string \<Rightarrow> int" where
  "int_of_literal s =
     (case s of
        [] \<Rightarrow> 0
      | c # cs \<Rightarrow> if c = CHR ''-'' then - int_of_digits cs else int_of_digits (c # cs))"

text \<open>
  The text of a float: number characters that do not form an integer literal.
\<close>

definition float_literal :: "string \<Rightarrow> bool" where
  "float_literal r \<longleftrightarrow> r \<noteq> [] \<and> list_all is_num_char r \<and> \<not> is_int_literal r"

definition unhex :: "char \<Rightarrow> nat option" where
  "unhex c = map_of (zip ''0123456789abcdefABCDEF''
                        [0, 1, 2, 3, 4, 5, 6, 7, 8, 9, 10, 11, 12, 13, 14, 15,
                         10, 11, 12, 13, 14, 15]) c"

definition unescape :: "char \<Rightarrow> char option" where
  "unescape c = map_of [(CHR 0x22, CHR 0x22), (CHR 0x5C, CHR 0x5C), (CHR ''/'', CHR ''/''),
                        (CHR ''b'', CHR 0x08), (CHR ''f'', CHR 0x0C), (CHR ''n'', CHR 0x0A),
                        (CHR ''r'', CHR 0x0D), (CHR ''t'', CHR 0x09)] c"

fun parse_string :: "string \<Rightarrow> (string \<times> string) option" where
  "parse_string [] = None"
| "parse_string (c # cs) =
     (if c = CHR 0x22 then Some ([], cs)
      else if c = CHR 0x5C then
        (case cs of
           [] \<Rightarrow> None
         | e # cs' \<Rightarrow>
             if e = CHR ''u'' then
               (case cs' of
                  h1 # h2 # h3 # h4 # cs'' \<Rightarrow>
                    (case (unhex h1, unhex h2, unhex h3, unhex h4) of
                       (Some a, Some b, Some c', Some d) \<Rightarrow>
                         if a = 0 \<and> b = 0
                         then map_option (\<lambda>(s, r). (char_of (16 * c' + d) # s, r))
                                (parse_string cs'')
                         else None
                     | _ \<Rightarrow> None)
                | _ \<Rightarrow> None)
             else
               (case unescape e of
                  None \<Rightarrow> None
                | Some ch \<Rightarrow> map_option (\<lambda>(s, r). (ch # s, r)) (parse_string cs')))
      else map_option (\<lambda>(s, r). (c # s, r)) (parse_string cs))"

definition parse_number :: "string \<Rightarrow> (pyval \<times> string) option" where
  "parse_number s =
     (let tok = takeWhile is_num_char s; rest = dropWhile is_num_char s
      in if tok = [] then None
         else if is_int_literal tok then Some (PInt (int_of_literal tok), rest)
         else Some (PFloat (Float_repr tok), rest))"

text \<open>
  Modelled from the spec: the parser of values and of the items of an object.  An item
  read under a key that is already there replaces its value, as in a dictionary.
\<close>

fun parse_value :: "nat \<Rightarrow> string \<Rightarrow> (pyval \<times> string) option"
  and parse_members :: "nat \<Rightarrow> pydict \<Rightarrow> string \<Rightarrow> (pydict \<times> string) option"
where
  "parse_value 0 s = None"
| "parse_value (Suc fuel) s =
     (case skip_ws s of
        [] \<Rightarrow> None
      | c # cs \<Rightarrow>
          if c = CHR ''{'' then
            (case skip_ws cs of
               [] \<Rightarrow> None
             | c' # cs' \<Rightarrow>
                 if c' = CHR ''}'' then Some (PDict [], cs')
                 else map_option (\<lambda>(m, r). (PDict m, r)) (parse_members fuel [] (c' # cs')))
          else if c = CHR 0x22 then map_option (\<lambda>(s', r). (PStr s', r)) (parse_string cs)
          else parse_number (c # cs))"
| "parse_members 0 acc s = None"
| "parse_members (Suc fuel) acc s =
     (case skip_ws s of
        [] \<Rightarrow> None
      | c # cs \<Rightarrow>
          if c \<noteq> CHR 0x22 then None
          else
            (case parse_string cs of
               None \<Rightarrow> None
             | Some (k, r) \<Rightarrow>
                 (case skip_ws r of
                    [] \<Rightarrow> None
                  | c1 # r1 \<Rightarrow>
                      if c1 \<noteq> CHR '':'' then None
                      else
                        (case parse_value fuel r1 of
                           None \<Rightarrow> None
                         | Some (v, r2) \<Rightarrow>
                             (case skip_ws r2 of
                                [] \<Rightarrow> None
                              | c2 # r3 \<Rightarrow>
                                  if c2 = CHR '','' then parse_members fuel (dict_set acc k v) r3
                                  else if c2 = CHR ''}'' then Some (dict_set acc k v, r3)
                                  else None)))))"

text \<open>
  Modelled from the spec: parsing a whole text, which holds one value and nothing after
  it but whitespace.
\<close>

definition json_loads :: "string \<Rightarrow> pyval option" where
  "json_loads s =
     (case parse_value (Suc (length s)) s of
        None \<Rightarrow> None
      | Some (v, rest) \<Rightarrow> if skip_ws rest = [] then Some v else None)"

text \<open>
  What may follow a number: the end of the text, or a character that no number holds.
\<close>

definition ends_number :: "string \<Rightarrow> bool" where
  "ends_number rest \<longleftrightarrow> (case rest of [] \<Rightarrow> True | c # cs \<Rightarrow> \<not> is_num_char c)"

text \<open>
  The trees that the parser gives back unchanged: keys are distinct in every
  dictionary and every float is written as a float.  \<open>cost\<close> counts the calls the
  parser needs for a value.
\<close>

fun wf_json :: "pyval \<Rightarrow> bool" where
  "wf_json (PDict kvs) = (distinct (map fst kvs) \<and> list_all (\<lambda>(k, v). wf_json v) kvs)"
| "wf_json (PFloat (Float_repr r)) = float_literal r"
| "wf_json v = True"

fun cost :: "pyval \<Rightarrow> nat" and cost_items :: "(string \<times> pyval) list \<Rightarrow> nat" where
  "cost (PDict kvs) = Suc (cost_items kvs)"
| "cost v = 1"
| "cost_items [] = 0"
| "cost_items ((k, v) # kvs) = Suc (cost v + cost_items kvs)"

text \<open>A modification time whose \<open>repr\<close> is the text of a float.\<close>

fun float_ok :: "pyfloat \<Rightarrow> bool" where
  "float_ok (Float_repr r) = float_literal r"

text \<open>
  The texts \<open>xs\<close> in their order, with \<open>sep\<close> between neighbours.
\<close>

fun join :: "string \<Rightarrow> string list \<Rightarrow> string" where
  "join sep [] = []"
| "join sep [x] = x"
| "join sep (x # y # ys) = x @ sep @ join sep (y # ys)"

section \<open>Properties of human_readable_size\<close>

lemma bit_length_le:
  "n < 2 ^ k \<Longrightarrow> bit_length n \<le> k"
proof (induction k arbitrary: n)
  case 0
  then show ?case by (simp add: bit_length.simps)
next
  case (Suc k)
  have "n div 2 < 2 ^ k" using Suc.prems by simp
  then have "bit_length (n div 2) \<le> k" by (rule Suc.IH)
  then show ?case by (subst bit_length.simps) simp
qed

lemma round_half_even_one: "round_half_even a 1 = a"
  by (simp add: round_half_even_def)

lemma float_of_int_exact:
  assumes "0 \<le> n" "n < 2 ^ 53"
  shows "float_of_int n = Inr (of_int n)"
proof -
  have a: "\<bar>n\<bar> = n" using assms(1) by simp
  have "bit_length n \<le> 53" using assms(2) by (rule bit_length_le)
  then have e: "bit_length n - 53 = 0" by simp
  have "n < 2 ^ 53 * 2 ^ 971" using assms by (simp add: less_le_trans)
  then have big: "\<not> (2 :: int) ^ 1024 \<le> n" by (simp flip: power_add)
  have s: "sgn n * n = n" using assms(1) by (simp add: sgn_if)
  show ?thesis
    unfolding float_of_int_def Let_def a e power_0 round_half_even_one mult_1_right s
    using big by simp
qed

lemma scale_units_pick:
  "j < length us \<Longrightarrow> 1024 ^ Suc j \<le> x \<Longrightarrow> x < 1024 ^ Suc (Suc j) \<Longrightarrow>
   scale_units x us = format_1f (x / 1024 ^ Suc j) @ '' '' @ us ! j"
proof (induction us arbitrary: x j)
  case Nil
  then show ?case by simp
next
  case (Cons u us)
  show ?case
  proof (cases j)
    case 0
    with Cons.prems show ?thesis by simp
  next
    case (Suc j')
    have "(1024::rat) ^ Suc 0 \<le> 1024 ^ Suc j'" by (intro power_increasing) simp_all
    then have "(1024::rat) * 1024 \<le> 1024 * 1024 ^ Suc j'" by simp
    also have "\<dots> \<le> x" using Cons.prems(2) Suc by simp
    finally have ge: "\<not> x / 1024 < 1024" by simp
    have lo: "1024 ^ Suc j' \<le> x / 1024" using Cons.prems(2) Suc by simp
    have hi: "x / 1024 < 1024 ^ Suc (Suc j')" using Cons.prems(3) Suc by simp
    have len: "j' < length us" using Cons.prems(1) Suc by simp
    have "scale_units (x / 1024) us = format_1f (x / 1024 / 1024 ^ Suc j') @ '' '' @ us ! j'"
      using len lo hi by (rule Cons.IH)
    then show ?thesis using ge Suc by simp
  qed
qed

text \<open>
  Below \<open>1024 ^ 5\<close> bytes the rendering is in the smallest unit of B, KB, MB, GB, TB
  whose scaled value is below 1024 (unit number \<open>k\<close> with
  \<open>1024 ^ k \<le> n < 1024 ^ (k + 1)\<close>, or \<open>k = 0\<close> for \<open>n < 1024\<close>): bytes are printed as
  the integer, every larger unit as the value divided by \<open>1024 ^ k\<close> with one decimal.
\<close>

lemma human_readable_size_units:
  assumes "k \<le> 4" and "k = 0 \<or> 1024 ^ k \<le> n" and "n < 1024 ^ Suc k"
  shows "human_readable_size n =
         Inr ((if k = 0 then str_int n else format_1f (of_int n / 1024 ^ k))
              @ '' '' @ unit_names ! k)"
proof (cases k)
  case 0
  with assms show ?thesis by (simp add: human_readable_size_def unit_names_def)
next
  case (Suc j)
  have j: "j < length [''KB'', ''MB'', ''GB'', ''TB'']" using assms(1) Suc by simp
  have lo: "1024 ^ Suc j \<le> n" using assms(2) Suc by simp
  have "(1024::int) ^ 1 \<le> 1024 ^ Suc j" by (rule power_increasing) simp_all
  then have "(1024::int) \<le> 1024 ^ Suc j" by (simp only: power_one_right)
  then have n1024: "1024 \<le> n" using lo by (rule order_trans)
  have "n < 1024 ^ Suc (Suc j)" using assms(3) Suc by simp
  also have "\<dots> \<le> (1024::int) ^ 5" using assms(1) Suc by (intro power_increasing) simp_all
  finally have "n < 1024 ^ 5" .
  then have "n < 2 ^ 53" by simp
  then have fl: "float_of_int n = Inr (of_int n)" using n1024 by (intro float_of_int_exact) simp_all
  have "(of_int (1024 ^ Suc j) :: rat) \<le> of_int n" using lo by (simp only: of_int_le_iff)
  then have lo': "(1024::rat) ^ Suc j \<le> of_int n" by simp
  have "(of_int n :: rat) < of_int (1024 ^ Suc (Suc j))"
    using assms(3) Suc by (simp only: of_int_less_iff)
  then have hi': "(of_int n :: rat) < 1024 ^ Suc (Suc j)" by simp
  have sc: "scale_units (of_int n) [''KB'', ''MB'', ''GB'', ''TB'']
        = format_1f (of_int n / 1024 ^ Suc j) @ '' '' @ [''KB'', ''MB'', ''GB'', ''TB''] ! j"
    using j lo' hi' by (rule scale_units_pick)
  have u: "unit_names ! Suc j = [''KB'', ''MB'', ''GB'', ''TB''] ! j"
  proof -
    have "j = 0 \<or> j = 1 \<or> j = 2 \<or> j = 3" using assms(1) Suc by arith
    then show ?thesis using Suc by (auto simp: unit_names_def)
  qed
  have "human_readable_size n = Inr (scale_units (of_int n) [''KB'', ''MB'', ''GB'', ''TB''])"
    using n1024 fl by (simp add: human_readable_size_def del: scale_units.simps)
  also have "\<dots> = Inr (format_1f (of_int n / 1024 ^ k) @ '' '' @ unit_names ! k)"
    by (simp only: Suc sc u)
  finally show ?thesis using Suc by simp
qed

text \<open>The example of the specification: 2048 bytes are 2.0 KB.\<close>

lemma human_readable_size_2048: "human_readable_size 2048 = Inr ''2.0 KB''"
proof -
  have f: "format_1f (of_int 2048 / 1024 ^ 1) = ''2.0''" by code_simp
  show ?thesis
    using human_readable_size_units [of 1 2048] f by (simp add: unit_names_def)
qed

text \<open>
  From \<open>1024 ^ 5\<close> bytes on, the four units of the loop are used up: the value has been
  divided four times, so it is in TB, and it is printed as it stands with the unit
  \<open>PB\<close>.
\<close>

lemma human_readable_size_fallback:
  assumes "1024 ^ 5 \<le> n" and "n < 2 ^ 53"
  shows "human_readable_size n = Inr (format_1f (of_int n / 1024 ^ 4) @ '' PB'')"
proof -
  have n: "1024 \<le> n" "0 \<le> n" using assms(1) by simp_all
  have fl: "float_of_int n = Inr (of_int n)" using n(2) assms(2) by (rule float_of_int_exact)
  have "(of_int (1024 ^ 5) :: rat) \<le> of_int n" using assms(1) by (simp only: of_int_le_iff)
  then have "(1125899906842624 :: rat) \<le> of_int n" by simp
  then have "scale_units (of_int n) [''KB'', ''MB'', ''GB'', ''TB'']
             = format_1f (of_int n / 1024 ^ 4) @ '' PB''"
    by simp
  then show ?thesis
    using n(1) fl by (simp add: human_readable_size_def del: scale_units.simps)
qed

text \<open>
  Claim C1, at the byte count where the code leaves it.  Exactly one pebibyte,
  \<open>2 ^ 50\<close> bytes, is rendered as 1024.0 PB: the value in TB under the unit PB.  In
  the unit PB the value is \<open>2 ^ 50 / 1024 ^ 5\<close>, which the format renders as 1.0, the
  way one tebibyte is rendered as 1.0 TB.
\<close>

theorem human_readable_size_PB_scale:
  "human_readable_size (2 ^ 50) = Inr ''1024.0 PB''
   \<and> format_1f (of_int (2 ^ 50) / 1024 ^ 5) = ''1.0''
   \<and> human_readable_size (2 ^ 40) = Inr ''1.0 TB''"
  by code_simp

section \<open>Properties of get_file_info and get_dir_tree\<close>

lemma round_half_even_bound:
  assumes "0 < b"
  shows "round_half_even a b * b \<le> a + b"
proof -
  have "a div b * b + a mod b = a" by simp
  moreover have "0 \<le> a mod b" using assms by simp
  ultimately have "a div b * b \<le> a" by linarith
  then show ?thesis
    using assms by (simp add: round_half_even_def Let_def algebra_simps)
qed

lemma float_of_int_fits:
  assumes "0 \<le> n" "n < 2 ^ 63"
  shows "\<exists>x. float_of_int n = Inr x"
proof -
  have a: "\<bar>n\<bar> = n" using assms(1) by simp
  define e where "e = bit_length n - 53"
  have "bit_length n \<le> 63" using assms(2) by (rule bit_length_le)
  then have "e \<le> 10" by (simp add: e_def)
  then have p: "(2::int) ^ e \<le> 2 ^ 10" by (intro power_increasing) simp_all
  have "round_half_even n (2 ^ e) * 2 ^ e \<le> n + 2 ^ e"
    by (rule round_half_even_bound) simp
  also have "\<dots> < 2 ^ 63 + 2 ^ 10" using assms(2) p by linarith
  also have "\<dots> < (2::int) ^ 1024" by simp
  finally have "\<not> 2 ^ 1024 \<le> round_half_even n (2 ^ e) * 2 ^ e" by simp
  then show ?thesis
    unfolding float_of_int_def Let_def a e_def [symmetric] by simp
qed

lemma human_readable_size_sint:
  fixes st_size :: "64 word"
  shows "\<exists>s. human_readable_size (sint st_size) = Inr s"
proof (cases "sint st_size < 1024")
  case True
  then show ?thesis by (simp add: human_readable_size_def)
next
  case False
  have "sint st_size < 2 ^ (LENGTH(64) - 1)" by (rule sint_lt)
  then have "sint st_size < 2 ^ 63" by simp
  moreover have "0 \<le> sint st_size" using False by simp
  ultimately obtain x where "float_of_int (sint st_size) = Inr x"
    using float_of_int_fits by blast
  then show ?thesis using False by (simp add: human_readable_size_def)
qed

lemma logged_None [simp]: "logged lg r = None \<longleftrightarrow> r = None"
  by (simp add: logged_def)

lemma logged_returns [simp]:
  "(\<exists>res lg'. logged lg r = Some (res, lg')) \<longleftrightarrow> (\<exists>res lg'. r = Some (res, lg'))"
  by (cases r) (auto simp: logged_def)

lemma logged_Some [simp]: "logged lg (Some (res, lg')) = Some (res, lg @ lg')"
  by (simp add: logged_def)

lemma logged_eq_Some:
  "logged lg x = Some (r, l) \<longleftrightarrow> (\<exists>l'. x = Some (r, l') \<and> l = lg @ l')"
  by (cases x) (auto simp: logged_def)

lemma name_child [simp]: "name (p @ [n]) = n"
  by (simp add: name_def)

text \<open>What get_file_info returns when it returns: no metadata, or size and time.\<close>

lemma get_file_info_cases:
  assumes "get_file_info fs (PyPath p) hr = (Inr v, lg)"
  shows "v = PDict [] \<or>
         (\<exists>a b. v = PDict [(''size'', a), (''modified_time'', b)] \<and> \<not> is_dict a \<and> \<not> is_dict b)"
  using assms
  by (auto simp: get_file_info_def except_oserror_def
      split: if_splits sum.splits prod.splits py_error.splits)

text \<open>The ways a step of the loop, and a call, come to a tree.\<close>

lemma scan_entries_Cons_cases [consumes 1, case_names subdir regular skipped]:
  assumes "scan_entries fuel fs d hr (entry # entries) tree = Some (Inr t', lg)"
  obtains
    sub l1 l2 where "path_is_dir fs entry = Inr True"
      "get_dir_tree fuel fs (PyPath entry) (PyInt (if d > 0 then d - 1 else - 1))
         (PyBool hr) PyLogger = Some (Inr sub, l1)"
      "scan_entries fuel fs d hr entries (dict_set tree (name entry) (PDict sub))
         = Some (Inr t', l2)"
      "lg = l1 @ l2"
  | info l1 l2 where "path_is_dir fs entry = Inr False" "path_is_file fs entry = Inr True"
      "get_file_info fs (PyPath entry) hr = (Inr info, l1)"
      "scan_entries fuel fs d hr entries (dict_set tree (name entry) info) = Some (Inr t', l2)"
      "lg = l1 @ l2"
  | l2 where "path_is_dir fs entry = Inr False" "path_is_file fs entry = Inr False"
      "scan_entries fuel fs d hr entries tree = Some (Inr t', l2)"
      "lg = Debug (Skipping_entry entry) # l2"
  using assms
  by (auto simp: logged_eq_Some simp del: get_dir_tree.simps
      split: option.splits sum.splits prod.splits if_splits)

lemma get_dir_tree_Suc_cases [consumes 1, case_names single zero denied listed]:
  assumes "get_dir_tree (Suc fuel) fs path depth human_readable logger = Some (Inr tree, lg)"
  obtains
    p d hr info where "as_path path = Some p" "as_int depth = Some d" "- 1 \<le> d"
      "as_bool human_readable = Some hr" "path_exists fs p = Inr True"
      "path_is_file fs p = Inr True"
      "get_file_info fs (PyPath p) hr = (Inr info, lg)" "tree = [(name p, info)]"
  | p where "as_path path = Some p" "as_int depth = Some 0"
      "path_exists fs p = Inr True" "path_is_file fs p = Inr False" "tree = []" "lg = []"
  | p d where "as_path path = Some p" "as_int depth = Some d" "- 1 \<le> d" "d \<noteq> 0"
      "path_exists fs p = Inr True" "path_is_file fs p = Inr False"
      "path_iterdir fs p = Inl PermissionError"
      "tree = []" "lg = [Warning (Permission_denied p)]"
  | p d hr names where "as_path path = Some p" "as_int depth = Some d" "- 1 \<le> d" "d \<noteq> 0"
      "as_bool human_readable = Some hr"
      "path_exists fs p = Inr True" "path_is_file fs p = Inr False"
      "path_iterdir fs p = Inr names"
      "scan_entries fuel fs d hr
         (sort_key (\<lambda>q. str_lower fs (name q)) (map (\<lambda>n. p @ [n]) names)) []
         = Some (Inr tree, lg)"
  using assms
  by (auto split: option.splits sum.splits prod.splits if_splits oserror.splits)

lemma scan_entries_returns_dirs:
  assumes gd: "\<And>entry. entry \<in> set entries \<Longrightarrow> path_is_dir fs entry = Inr True \<Longrightarrow>
                 get_dir_tree fuel fs (PyPath entry) (PyInt (if d > 0 then d - 1 else - 1))
                   (PyBool hr) PyLogger \<noteq> None"
  shows "scan_entries fuel fs d hr entries tree \<noteq> None"
  using gd
proof (induction entries arbitrary: tree)
  case Nil
  show ?case by simp
next
  case (Cons entry entries)
  have rest: "scan_entries fuel fs d hr entries t \<noteq> None" for t
    using Cons.prems by (intro Cons.IH) simp_all
  obtain r' lg' where f: "get_file_info fs (PyPath entry) hr = (r', lg')"
    by (cases "get_file_info fs (PyPath entry) hr")
  show ?case
  proof (cases "path_is_dir fs entry = Inr True")
    case True
    then obtain r lg where g: "get_dir_tree fuel fs (PyPath entry)
        (PyInt (if d > 0 then d - 1 else - 1)) (PyBool hr) PyLogger = Some (r, lg)"
      using Cons.prems [of entry] by (cases "get_dir_tree fuel fs (PyPath entry)
      (PyInt (if d > 0 then d - 1 else - 1)) (PyBool hr) PyLogger") auto
    show ?thesis
      using True g rest by (cases r) (simp_all del: get_dir_tree.simps)
  next
    case False
    show ?thesis
      using False f rest
      by (cases r') (auto simp del: get_dir_tree.simps split: sum.splits)
  qed
qed

lemma scan_entries_returns:
  assumes gd: "\<And>entry. get_dir_tree fuel fs (PyPath entry) (PyInt (if d > 0 then d - 1 else - 1))
                   (PyBool hr) PyLogger \<noteq> None"
  shows "scan_entries fuel fs d hr entries tree \<noteq> None"
  by (rule scan_entries_returns_dirs) (rule gd)

lemma get_dir_tree_returns:
  "0 \<le> d \<Longrightarrow> d < int fuel \<Longrightarrow>
   get_dir_tree fuel fs path (PyInt d) human_readable logger \<noteq> None"
proof (induction fuel arbitrary: d path human_readable logger)
  case 0
  then show ?case by simp
next
  case (Suc fuel)
  show ?case
  proof (cases "d = 0")
    case True
    then show ?thesis by (auto split: option.splits prod.splits sum.splits oserror.splits)
  next
    case False
    then have d: "0 < d" "0 \<le> d - 1" "d - 1 < int fuel" using Suc.prems by simp_all
    have "scan_entries fuel fs d hr entries tree \<noteq> None" for hr entries tree
      by (rule scan_entries_returns) (use d Suc.IH in simp)
    then show ?thesis
      by (auto split: option.splits prod.splits sum.splits oserror.splits)
  qed
qed

lemma get_dir_tree_endless:
  "get_dir_tree fuel fs_endless (PyPath p) (PyInt (- 1)) (PyBool hr) PyLogger = None"
proof (induction fuel arbitrary: p)
  case 0
  show ?case by simp
next
  case (Suc fuel)
  have "scan_entries fuel fs_endless (- 1) hr [p @ [''a'']] [] = None"
    using Suc.IH [of "p @ [''a'']"] by (simp add: fs_endless_def)
  then show ?case by (simp add: fs_endless_def)
qed


lemma get_dir_tree_returns_finite:
  assumes fin: "\<forall>q. h \<le> length q \<longrightarrow> path_is_dir fs q \<noteq> Inr True"
  shows "h - length p < fuel \<Longrightarrow>
         get_dir_tree fuel fs (PyPath p) (PyInt (- 1)) human_readable logger \<noteq> None"
proof (induction fuel arbitrary: p human_readable logger)
  case 0
  then show ?case by simp
next
  case (Suc fuel)
  have "scan_entries fuel fs (- 1) hr
          (sort_key (\<lambda>q. str_lower fs (name q)) (map (\<lambda>n. p @ [n]) names)) []
        \<noteq> None" for hr names
  proof (rule scan_entries_returns_dirs)
    fix entry
    assume e: "entry \<in> set (sort_key (\<lambda>q. str_lower fs (name q)) (map (\<lambda>n. p @ [n]) names))"
      and d: "path_is_dir fs entry = Inr True"
    from e have l: "length entry = Suc (length p)" by auto
    have "length entry < h" using d fin by (meson not_le)
    then have "h - length entry < fuel" using Suc.prems l by simp
    then show "get_dir_tree fuel fs (PyPath entry) (PyInt (if 0 < (- 1 :: int) then - 1 - 1 else - 1))
                 (PyBool hr) PyLogger \<noteq> None"
      using Suc.IH [of entry "PyBool hr" PyLogger] by simp
  qed
  then show ?case
    by (auto split: option.splits prod.splits sum.splits oserror.splits)
qed

text \<open>
  Claim C9.  With a depth \<open>d \<ge> 0\<close>, get_dir_tree returns on every filesystem within
  \<open>d + 1\<close> nested calls, since each call into a subdirectory passes \<open>d - 1\<close>.  With
  depth \<open>- 1\<close> the budget is not decremented and the call follows the filesystem: it
  returns when no directory lies \<open>h\<close> levels deep, within as many nested calls as
  levels are left below the root, and on the tree without end it returns within no
  number of nested calls.
\<close>

theorem get_dir_tree_terminates:
  "(0 \<le> d \<longrightarrow> nat d < fuel \<longrightarrow>
      (\<exists>r. get_dir_tree fuel fs path (PyInt d) human_readable logger = Some r))
   \<and> ((\<forall>q. h \<le> length q \<longrightarrow> path_is_dir fs q \<noteq> Inr True) \<longrightarrow> h - length p < fuel \<longrightarrow>
      (\<exists>r. get_dir_tree fuel fs (PyPath p) (PyInt (- 1)) human_readable logger = Some r))
   \<and> get_dir_tree fuel fs_endless (PyPath p) (PyInt (- 1)) (PyBool hr) PyLogger = None"
proof -
  have "get_dir_tree fuel fs path (PyInt d) human_readable logger \<noteq> None"
    if "0 \<le> d" "nat d < fuel"
    using that by (intro get_dir_tree_returns) simp_all
  moreover have "get_dir_tree fuel fs (PyPath p) (PyInt (- 1)) human_readable logger \<noteq> None"
    if "\<forall>q. h \<le> length q \<longrightarrow> path_is_dir fs q \<noteq> Inr True" "h - length p < fuel"
    using that by (rule get_dir_tree_returns_finite)
  ultimately show ?thesis by (auto simp: get_dir_tree_endless)
qed

text \<open>
  Claim C9, witness: depth 2 on the tree without end returns within 3 nested calls,
  and so does the unlimited build of the example, which has no directory 3 levels deep.
\<close>

theorem get_dir_tree_terminates_witness:
  "(0::int) \<le> 2 \<and> nat 2 < (3::nat)
   \<and> (\<exists>r. get_dir_tree 3 fs_endless (PyPath []) (PyInt 2) (PyBool False) PyNone = Some r)
   \<and> (3::nat) - length [''r''] < 3
   \<and> (\<exists>r. get_dir_tree 3 fs_example (PyPath [''r'']) (PyInt (- 1)) (PyBool False) PyNone = Some r)"
proof -
  have fin: "\<forall>q. 3 \<le> length q \<longrightarrow> path_is_dir fs_example q \<noteq> Inr True"
    by (auto simp: fs_example_def)
  show ?thesis
    using get_dir_tree_terminates [of 2 3 fs_endless "PyPath []" "PyBool False" PyNone]
      get_dir_tree_terminates [of _ 3 fs_example _ "PyBool False" PyNone 3 "[''r'']"] fin
    by simp
qed


text \<open>The exceptions get_file_info lets through.\<close>

lemma human_readable_size_sint_error [simp]:
  fixes st_size :: "64 word"
  shows "human_readable_size (sint st_size) \<noteq> Inl err"
  using human_readable_size_sint [of st_size] by auto

lemma get_file_info_errors:
  assumes "get_file_info fs (PyPath p) hr = (Inl err, lg)"
  shows "err = ValueError Timestamp \<or> err = OverflowError \<or> (\<exists>e. err = OSError e)"
  using assms
  by (auto simp: get_file_info_def except_oserror_def human_readable_time_def
      split: if_splits sum.splits prod.splits py_error.splits time_error.splits)

lemma get_file_info_exists_raises:
  "as_path path = Some p \<Longrightarrow> path_exists fs p = Inl e \<Longrightarrow>
   get_file_info fs path hr = (Inl (OSError e), [])"
  by (simp add: get_file_info_def)

lemma get_file_info_time_raises:
  assumes "as_path path = Some p" and "path_exists fs p = Inr True"
    and "path_stat fs p = Inr (st_size, st_mtime)"
    and "local_time fs st_mtime = Inl Time_ValueError"
  shows "get_file_info fs path True = (Inl (ValueError Timestamp), [])"
proof -
  obtain s where s: "human_readable_size (sint st_size) = Inr s"
    using human_readable_size_sint by blast
  show ?thesis
    using assms s
    by (simp add: get_file_info_def except_oserror_def human_readable_time_def)
qed

text \<open>
  Claim C6: get_file_info raises.  The call \<open>path.exists()\<close> stands before the
  \<open>try\<close>, so the \<open>PermissionError\<close> it raises for an entry of a directory that may not
  be searched reaches the caller; and \<open>except (OSError, PermissionError)\<close> does not
  catch the \<open>ValueError\<close> that the time formatting raises, with human_readable, for a
  modification time beyond the year 9999.  Without human_readable the same file gives
  its size and its modification time.
\<close>

theorem get_file_info_raises:
  "get_file_info fs_unsearchable (PyStr ''r/Docs/x'') False
     = (Inl (OSError PermissionError), [])
   \<and> get_file_info fs_far_future (PyStr ''r/a.txt'') True
     = (Inl (ValueError Timestamp), [])
   \<and> get_file_info fs_far_future (PyStr ''r/a.txt'') False
     = (Inr (PDict [(''size'', PInt 5),
                    (''modified_time'', PFloat (Float_repr ''1000000000000.0''))]), [])"
  by code_simp



text \<open>No call with a valid depth raises one of the two exceptions of the depth check.\<close>

lemma scan_entries_depth_accepted:
  assumes gd: "\<And>entry err lg.
                 get_dir_tree fuel fs (PyPath entry) (PyInt (if d > 0 then d - 1 else - 1))
                   (PyBool hr) PyLogger = Some (Inl err, lg) \<Longrightarrow>
                 err \<noteq> TypeError Arg_depth \<and> err \<noteq> ValueError Arg_depth"
  shows "scan_entries fuel fs d hr entries tree = Some (Inl err, lg) \<Longrightarrow>
         err \<noteq> TypeError Arg_depth \<and> err \<noteq> ValueError Arg_depth"
proof (induction entries arbitrary: tree lg)
  case Nil
  then show ?case by simp
next
  case (Cons entry entries)
  note p = Cons.prems
  show ?case
  proof (cases "path_is_dir fs entry")
    case (Inl e)
    with p show ?thesis by (auto simp del: get_dir_tree.simps)
  next
    case (Inr directory)
    show ?thesis
    proof (cases directory)
      case True
      show ?thesis
      proof (cases "get_dir_tree fuel fs (PyPath entry)
                      (PyInt (if d > 0 then d - 1 else - 1)) (PyBool hr) PyLogger")
        case None
        with p Inr True show ?thesis by (simp del: get_dir_tree.simps)
      next
        case (Some a)
        obtain r1 l1 where a: "a = (r1, l1)" by (cases a)
        show ?thesis
        proof (cases r1)
          case (Inl e1)
          then have "err = e1" using p Inr True Some a by (simp del: get_dir_tree.simps)
          then show ?thesis using gd [of entry e1 l1] Some a Inl by simp
        next
          case r1: (Inr sub)
          then obtain l2 where "scan_entries fuel fs d hr entries
              (dict_set tree (name entry) (PDict sub)) = Some (Inl err, l2)"
            using p Inr True Some a
            by (auto simp: logged_eq_Some simp del: get_dir_tree.simps)
          then show ?thesis by (rule Cons.IH)
        qed
      qed
    next
      case False
      show ?thesis
      proof (cases "path_is_file fs entry")
        case (Inl e)
        with p Inr False show ?thesis by (auto simp del: get_dir_tree.simps)
      next
        case regular: (Inr regular)
        show ?thesis
        proof (cases regular)
          case True
          obtain r1 l1 where f: "get_file_info fs (PyPath entry) hr = (r1, l1)"
            by (cases "get_file_info fs (PyPath entry) hr")
          show ?thesis
          proof (cases r1)
            case (Inl e1)
            then have "err = e1"
              using p Inr False regular True f by (simp del: get_dir_tree.simps)
            then show ?thesis using get_file_info_errors [of fs entry hr e1 l1] f Inl by auto
          next
            case r1: (Inr info)
            then obtain l2 where "scan_entries fuel fs d hr entries
                (dict_set tree (name entry) info) = Some (Inl err, l2)"
              using p Inr False regular True f
              by (auto simp: logged_eq_Some simp del: get_dir_tree.simps)
            then show ?thesis by (rule Cons.IH)
          qed
        next
          case skip: False
          then obtain l2 where "scan_entries fuel fs d hr entries tree = Some (Inl err, l2)"
            using p Inr False regular
            by (auto simp: logged_eq_Some simp del: get_dir_tree.simps)
          then show ?thesis by (rule Cons.IH)
        qed
      qed
    qed
  qed
qed

text \<open>The ways a call comes to an exception.\<close>

lemma get_dir_tree_Suc_error_cases
  [consumes 1, case_names arguments missing test single listing scan]:
  assumes "get_dir_tree (Suc fuel) fs path depth human_readable logger = Some (Inl err, lg)"
  obtains
    "as_path path = None \<and> err = TypeError Arg_path
     \<or> as_path path \<noteq> None \<and> as_int depth = None \<and> err = TypeError Arg_depth
     \<or> as_path path \<noteq> None \<and> (\<exists>d. as_int depth = Some d \<and> d < - 1) \<and> err = ValueError Arg_depth
     \<or> as_path path \<noteq> None \<and> (\<exists>d. as_int depth = Some d \<and> - 1 \<le> d)
         \<and> as_bool human_readable = None \<and> err = TypeError Arg_human_readable
     \<or> as_path path \<noteq> None \<and> (\<exists>d. as_int depth = Some d \<and> - 1 \<le> d)
         \<and> as_bool human_readable \<noteq> None \<and> truthy logger \<and> logger \<noteq> PyLogger
         \<and> err = TypeError Arg_logger"
      "lg = []"
  | p d where "as_path path = Some p" "as_int depth = Some d" "- 1 \<le> d"
      "path_exists fs p = Inr False" "err = OSError FileNotFoundError" "lg = []"
  | p d e where "as_path path = Some p" "as_int depth = Some d" "- 1 \<le> d"
      "path_exists fs p = Inl e \<or> path_exists fs p = Inr True \<and> path_is_file fs p = Inl e"
      "err = OSError e" "lg = []"
  | p d hr where "as_path path = Some p" "as_int depth = Some d" "- 1 \<le> d"
      "as_bool human_readable = Some hr"
      "path_exists fs p = Inr True" "path_is_file fs p = Inr True"
      "get_file_info fs (PyPath p) hr = (Inl err, lg)"
  | p d e where "as_path path = Some p" "as_int depth = Some d" "- 1 \<le> d" "d \<noteq> 0"
      "path_exists fs p = Inr True" "path_is_file fs p = Inr False"
      "path_iterdir fs p = Inl e" "e \<noteq> PermissionError" "err = OSError e" "lg = []"
  | p d hr names where "as_path path = Some p" "as_int depth = Some d" "- 1 \<le> d" "d \<noteq> 0"
      "as_bool human_readable = Some hr"
      "path_exists fs p = Inr True" "path_is_file fs p = Inr False"
      "path_iterdir fs p = Inr names"
      "scan_entries fuel fs d hr
         (sort_key (\<lambda>q. str_lower fs (name q)) (map (\<lambda>n. p @ [n]) names)) []
         = Some (Inl err, lg)"
  using assms
  by (auto split: option.splits sum.splits prod.splits if_splits oserror.splits)

lemma get_dir_tree_depth_accepted:
  "as_int depth = Some d \<Longrightarrow> - 1 \<le> d \<Longrightarrow>
   get_dir_tree fuel fs path depth human_readable logger = Some (Inl err, lg) \<Longrightarrow>
   err \<noteq> TypeError Arg_depth \<and> err \<noteq> ValueError Arg_depth"
proof (induction fuel arbitrary: path depth d human_readable logger err lg)
  case 0
  then show ?case by simp
next
  case (Suc fuel)
  from Suc.prems(3) show ?case
  proof (cases rule: get_dir_tree_Suc_error_cases)
    case arguments
    then show ?thesis using Suc.prems(1,2) by auto
  next
    case (single p d' hr)
    then show ?thesis using get_file_info_errors [of fs p hr err lg] by auto
  next
    case (scan p d' hr names)
    then have d': "d' = d" using Suc.prems(1) by simp
    show ?thesis
    proof (rule scan_entries_depth_accepted [OF _ scan(9)])
      fix entry e1 l1
      assume "get_dir_tree fuel fs (PyPath entry) (PyInt (if d' > 0 then d' - 1 else - 1))
                   (PyBool hr) PyLogger = Some (Inl e1, l1)"
      then show "e1 \<noteq> TypeError Arg_depth \<and> e1 \<noteq> ValueError Arg_depth"
        using scan(3)
        by (intro Suc.IH [of "PyInt (if d' > 0 then d' - 1 else - 1)"
              "if d' > 0 then d' - 1 else - 1" "PyPath entry" "PyBool hr" PyLogger e1 l1])
           simp_all
    qed
  qed simp_all
qed

text \<open>
  Claim C10.  A boolean depth passes the check \<open>isinstance(depth, int)\<close>: no call with
  a boolean depth raises the \<open>TypeError\<close> or the \<open>ValueError\<close> of the depth check;
  \<open>True\<close> behaves as depth 1 and \<open>False\<close> as depth 0, so that on a directory \<open>False\<close>
  returns the empty node and \<open>True\<close> runs the loop over the entries with the budget 1.
  A human_readable that is not a \<open>bool\<close> is refused with the \<open>TypeError\<close> of its own
  check.
\<close>

theorem get_dir_tree_bool_depth:
  "get_dir_tree fuel fs path (PyBool True) human_readable logger
     = get_dir_tree fuel fs path (PyInt 1) human_readable logger
   \<and> get_dir_tree fuel fs path (PyBool False) human_readable logger
     = get_dir_tree fuel fs path (PyInt 0) human_readable logger
   \<and> (\<forall>lg. get_dir_tree fuel fs path (PyBool b) human_readable logger
             \<noteq> Some (Inl (TypeError Arg_depth), lg)
           \<and> get_dir_tree fuel fs path (PyBool b) human_readable logger
             \<noteq> Some (Inl (ValueError Arg_depth), lg))
   \<and> (as_path path = Some p \<and> as_bool human_readable = Some hr
        \<and> (\<not> truthy logger \<or> logger = PyLogger)
        \<and> path_exists fs p = Inr True \<and> path_is_file fs p = Inr False \<longrightarrow>
        get_dir_tree (Suc fuel) fs path (PyBool False) human_readable logger
          = Some (Inr [], [])
        \<and> (\<forall>names. path_iterdir fs p = Inr names \<longrightarrow>
             get_dir_tree (Suc fuel) fs path (PyBool True) human_readable logger
               = scan_entries fuel fs 1 hr
                   (sort_key (\<lambda>q. str_lower fs (name q)) (map (\<lambda>n. p @ [n]) names)) []))
   \<and> (as_path path = Some p \<and> as_bool human_readable = None \<longrightarrow>
        get_dir_tree (Suc fuel) fs path (PyBool b) human_readable logger
          = Some (Inl (TypeError Arg_human_readable), []))"
proof -
  have eq: "get_dir_tree fuel fs path (PyBool True) human_readable logger
     = get_dir_tree fuel fs path (PyInt 1) human_readable logger"
    "get_dir_tree fuel fs path (PyBool False) human_readable logger
     = get_dir_tree fuel fs path (PyInt 0) human_readable logger"
    by (cases fuel; simp split: option.splits)+
  have acc: "\<forall>lg. get_dir_tree fuel fs path (PyBool b) human_readable logger
             \<noteq> Some (Inl (TypeError Arg_depth), lg)
           \<and> get_dir_tree fuel fs path (PyBool b) human_readable logger
             \<noteq> Some (Inl (ValueError Arg_depth), lg)"
  proof (intro allI conjI notI)
    fix lg
    assume "get_dir_tree fuel fs path (PyBool b) human_readable logger
              = Some (Inl (TypeError Arg_depth), lg)"
    then show False
      using get_dir_tree_depth_accepted [of "PyBool b" "if b then 1 else 0" fuel fs path
        human_readable logger "TypeError Arg_depth" lg]
      by (cases b) (simp_all del: get_dir_tree.simps)
  next
    fix lg
    assume "get_dir_tree fuel fs path (PyBool b) human_readable logger
              = Some (Inl (ValueError Arg_depth), lg)"
    then show False
      using get_dir_tree_depth_accepted [of "PyBool b" "if b then 1 else 0" fuel fs path
        human_readable logger "ValueError Arg_depth" lg]
      by (cases b) (simp_all del: get_dir_tree.simps)
  qed
  have rest: "(as_path path = Some p \<and> as_bool human_readable = Some hr
        \<and> (\<not> truthy logger \<or> logger = PyLogger)
        \<and> path_exists fs p = Inr True \<and> path_is_file fs p = Inr False \<longrightarrow>
        get_dir_tree (Suc fuel) fs path (PyBool False) human_readable logger
          = Some (Inr [], [])
        \<and> (\<forall>names. path_iterdir fs p = Inr names \<longrightarrow>
             get_dir_tree (Suc fuel) fs path (PyBool True) human_readable logger
               = scan_entries fuel fs 1 hr
                   (sort_key (\<lambda>q. str_lower fs (name q)) (map (\<lambda>n. p @ [n]) names)) []))"
    "(as_path path = Some p \<and> as_bool human_readable = None \<longrightarrow>
        get_dir_tree (Suc fuel) fs path (PyBool b) human_readable logger
          = Some (Inl (TypeError Arg_human_readable), []))"
    by auto
  show ?thesis
    by (rule conjI [OF eq(1) conjI [OF eq(2) conjI [OF acc conjI [OF rest(1) rest(2)]]]])
qed

text \<open>
  Claim C10, witness: on the example, depth \<open>True\<close> returns the entries of \<open>r\<close> with
  the directories \<open>b\<close> and \<open>Docs\<close> left empty, as depth 1 does, depth \<open>False\<close> returns
  the empty node, and human_readable \<open>1\<close> raises the \<open>TypeError\<close> of its check.
\<close>

theorem get_dir_tree_bool_depth_witness:
  "as_path (PyPath [''r'']) = Some [''r''] \<and> as_bool (PyBool False) = Some False
   \<and> \<not> truthy PyNone
   \<and> path_exists fs_example [''r''] = Inr True \<and> path_is_file fs_example [''r''] = Inr False
   \<and> get_dir_tree (Suc 1) fs_example (PyPath [''r'']) (PyBool True) (PyBool False) PyNone
       = Some (Inr [(''a.txt'', PDict [(''size'', PInt 5),
                      (''modified_time'', PFloat (Float_repr ''1762813800.5''))]),
                    (''b'', PDict []), (''Docs'', PDict [])],
               [Debug (Skipping_entry [''r'', ''sock''])])
   \<and> get_dir_tree (Suc 1) fs_example (PyPath [''r'']) (PyBool False) (PyBool False) PyNone
       = Some (Inr [], [])
   \<and> as_bool (PyInt 1) = None
   \<and> get_dir_tree (Suc 1) fs_example (PyPath [''r'']) (PyBool True) (PyInt 1) PyNone
       = Some (Inl (TypeError Arg_human_readable), [])"
proof -
  have e: "path_exists fs_example [''r''] = Inr True"
    "path_is_file fs_example [''r''] = Inr False"
    by (simp_all add: fs_example_def)
  have one: "get_dir_tree 2 fs_example (PyPath [''r'']) (PyInt 1) (PyBool False) PyNone
       = Some (Inr [(''a.txt'', PDict [(''size'', PInt 5),
                      (''modified_time'', PFloat (Float_repr ''1762813800.5''))]),
                    (''b'', PDict []), (''Docs'', PDict [])],
               [Debug (Skipping_entry [''r'', ''sock''])])"
    by code_simp
  have two: "Suc 1 = 2" by simp
  note h2 = get_dir_tree_bool_depth [of 2 fs_example "PyPath [''r'']" "PyBool False"
      PyNone True "[''r'']" False]
  note h = get_dir_tree_bool_depth [of 1 fs_example "PyPath [''r'']" "PyBool False"
      PyNone True "[''r'']" False]
  note h' = get_dir_tree_bool_depth [of 1 fs_example "PyPath [''r'']" "PyInt 1"
      PyNone True "[''r'']" False]
  have a: "get_dir_tree (Suc 1) fs_example (PyPath [''r'']) (PyBool True) (PyBool False) PyNone
       = Some (Inr [(''a.txt'', PDict [(''size'', PInt 5),
                      (''modified_time'', PFloat (Float_repr ''1762813800.5''))]),
                    (''b'', PDict []), (''Docs'', PDict [])],
               [Debug (Skipping_entry [''r'', ''sock''])])"
    using h2 one unfolding two by (simp del: get_dir_tree.simps)
  have b: "get_dir_tree (Suc 1) fs_example (PyPath [''r'']) (PyBool False) (PyBool False) PyNone
       = Some (Inr [], [])"
    using h e by (simp del: get_dir_tree.simps)
  have c: "get_dir_tree (Suc 1) fs_example (PyPath [''r'']) (PyBool True) (PyInt 1) PyNone
       = Some (Inl (TypeError Arg_human_readable), [])"
    using h' by (simp del: get_dir_tree.simps)
  show ?thesis using a b c e by simp
qed




text \<open>The unlimited build of the example.\<close>

lemma fs_example_tree:
  "get_dir_tree 3 fs_example (PyPath [''r'']) (PyInt (- 1)) (PyBool False) PyLogger
     = Some (Inr [(''a.txt'', PDict [(''size'', PInt 5),
                     (''modified_time'', PFloat (Float_repr ''1762813800.5''))]),
                  (''b'', PDict []),
                  (''Docs'', PDict [(''x'', PDict [(''size'', PInt 2048),
                     (''modified_time'', PFloat (Float_repr ''1762813860.0''))])])],
             [Warning (Permission_denied [''r'', ''b'']), Debug (Skipping_entry [''r'', ''sock''])])"
  by code_simp




lemma keys_dict_set_old: "k \<in> fst ` set t \<Longrightarrow> map fst (dict_set t k v) = map fst t"
  by (induction t) force+

lemma keys_dict_set_new: "k \<notin> fst ` set t \<Longrightarrow> map fst (dict_set t k v) = map fst t @ [k]"
  by (induction t) auto

lemma ordered_nodes_leaf: "\<not> is_dict a \<Longrightarrow> ordered_nodes lower a"
  by (cases a) simp_all

lemma list_all_dict_set:
  "list_all P t \<Longrightarrow> P (k, v) \<Longrightarrow> list_all P (dict_set t k v)"
  by (induction t) auto

lemma get_file_info_ordered:
  assumes "get_file_info fs (PyPath p) hr = (Inr v, lg)"
  shows "is_dict v \<and> ordered_nodes lower v"
  using get_file_info_cases [OF assms] by (auto simp: ordered_nodes_leaf)

lemma scan_ordered_skip:
  "scan_ordered lower tree (entry # entries) \<Longrightarrow> scan_ordered lower tree entries"
  by (auto simp: scan_ordered_def)

lemma scan_ordered_set:
  assumes "scan_ordered lower tree (entry # entries)"
  shows "scan_ordered lower (dict_set tree (name entry) v) entries"
proof (cases "name entry \<in> fst ` set tree")
  case True
  have k: "map fst (dict_set tree (name entry) v) = map fst tree"
    using True by (rule keys_dict_set_old)
  have "fst ` set (dict_set tree (name entry) v) = set (map fst (dict_set tree (name entry) v))"
    by simp
  then have "fst ` set (dict_set tree (name entry) v) = fst ` set tree"
    unfolding k by simp
  then show ?thesis using assms k by (simp add: scan_ordered_def)
next
  case False
  have k: "map fst (dict_set tree (name entry) v) = map fst tree @ [name entry]"
    using False by (rule keys_dict_set_new)
  have "fst ` set (dict_set tree (name entry) v) = set (map fst (dict_set tree (name entry) v))"
    by simp
  then have i: "fst ` set (dict_set tree (name entry) v) = insert (name entry) (fst ` set tree)"
    unfolding k by simp
  have "sorted (map lower (map fst tree) @ [lower (name entry)])"
    using assms by (auto simp: scan_ordered_def sorted_append)
  then show ?thesis
    using assms False by (auto simp: scan_ordered_def k i)
qed

lemma scan_entries_ordered:
  assumes gd: "\<And>entry sub lg.
                 get_dir_tree fuel fs (PyPath entry) (PyInt (if d > 0 then d - 1 else - 1))
                   (PyBool hr) PyLogger = Some (Inr sub, lg) \<Longrightarrow>
                 ordered_nodes lower (PDict sub)"
  shows "scan_entries fuel fs d hr entries tree = Some (Inr t', lg) \<Longrightarrow>
         scan_ordered lower tree entries \<Longrightarrow>
         list_all (\<lambda>(k, v). is_dict v \<and> ordered_nodes lower v) tree \<Longrightarrow>
         scan_ordered lower t' []
         \<and> list_all (\<lambda>(k, v). is_dict v \<and> ordered_nodes lower v) t'"
proof (induction entries arbitrary: tree lg)
  case Nil
  then show ?case by simp
next
  case (Cons entry entries)
  from Cons.prems(1) show ?case
  proof (cases rule: scan_entries_Cons_cases)
    case (subdir sub l1 l2)
    have "ordered_nodes lower (PDict sub)" using subdir(2) by (rule gd)
    then have "list_all (\<lambda>(k, v). is_dict v \<and> ordered_nodes lower v)
                 (dict_set tree (name entry) (PDict sub))"
      using Cons.prems(3) by (intro list_all_dict_set) simp_all
    then show ?thesis
      using Cons.IH [OF subdir(3) scan_ordered_set [OF Cons.prems(2)]] by simp
  next
    case (regular info l1 l2)
    have "is_dict info \<and> ordered_nodes lower info"
      using regular(3) by (rule get_file_info_ordered)
    then have "list_all (\<lambda>(k, v). is_dict v \<and> ordered_nodes lower v)
                 (dict_set tree (name entry) info)"
      using Cons.prems(3) by (intro list_all_dict_set) simp_all
    then show ?thesis
      using Cons.IH [OF regular(4) scan_ordered_set [OF Cons.prems(2)]] by simp
  next
    case (skipped l2)
    show ?thesis
      using Cons.IH [OF skipped(3) scan_ordered_skip [OF Cons.prems(2)] Cons.prems(3)] .
  qed
qed

lemma ordered_nodes_dir:
  assumes "scan_ordered lower t []"
    and "list_all (\<lambda>(k, v). is_dict v \<and> ordered_nodes lower v) t"
  shows "ordered_nodes lower (PDict t)"
proof -
  have e: "map (\<lambda>(k, v). lower k) t = map lower (map fst t)"
    by (simp add: case_prod_unfold comp_def)
  have c: "list_all (\<lambda>(k, v). ordered_nodes lower v) t"
    using assms(2) by (induction t) auto
  have "distinct (map fst t)" "sorted (map lower (map fst t))"
    using assms(1) by (simp_all add: scan_ordered_def)
  then show ?thesis unfolding ordered_nodes.simps e using c by blast
qed

lemma get_dir_tree_ordered:
  "get_dir_tree fuel fs path depth human_readable logger = Some (Inr tree, lg) \<Longrightarrow>
   ordered_nodes (str_lower fs) (PDict tree)"
proof (induction fuel arbitrary: path depth human_readable logger tree lg)
  case 0
  then show ?case by simp
next
  case (Suc fuel)
  from Suc.prems show ?case
  proof (cases rule: get_dir_tree_Suc_cases)
    case (single p d hr info)
    then show ?thesis using get_file_info_ordered [OF single(7), of "str_lower fs"] by simp
  next
    case (listed p d hr names)
    have "scan_ordered (str_lower fs) []
            (sort_key (\<lambda>q. str_lower fs (name q)) (map (\<lambda>n. p @ [n]) names))"
      by (simp add: scan_ordered_def)
    with listed(9)
    have "scan_ordered (str_lower fs) tree []
          \<and> list_all (\<lambda>(k, v). is_dict v \<and> ordered_nodes (str_lower fs) v) tree"
      by (intro scan_entries_ordered [where tree = "[]"]) (use Suc.IH in auto)
    then show ?thesis using ordered_nodes_dir by blast
  qed simp_all
qed

lemma only_files_and_dirs_dict_set:
  assumes "only_files_and_dirs fs p t"
    and "if path_is_dir fs (p @ [k]) = Inr True
         then \<exists>sub. v = PDict sub \<and> only_files_and_dirs fs (p @ [k]) sub
         else path_is_file fs (p @ [k]) = Inr True"
  shows "only_files_and_dirs fs p (dict_set t k v)"
  using assms by (induction t) (auto split: if_splits)

lemma only_files_and_dirs_member:
  "only_files_and_dirs fs p t \<Longrightarrow> (k, v) \<in> set t \<Longrightarrow> \<not> special fs (p @ [k])"
  by (induction t) (auto simp: special_def split: if_splits)

lemma only_files_and_dirs_keys:
  "only_files_and_dirs fs p t \<Longrightarrow> k \<in> fst ` set t \<Longrightarrow> \<not> special fs (p @ [k])"
  using only_files_and_dirs_member by fastforce

lemma scan_entries_only_files_and_dirs:
  assumes gd: "\<And>entry sub lg. path_is_dir fs entry = Inr True \<Longrightarrow>
                 get_dir_tree fuel fs (PyPath entry) (PyInt (if d > 0 then d - 1 else - 1))
                   (PyBool hr) PyLogger = Some (Inr sub, lg) \<Longrightarrow>
                 only_files_and_dirs fs entry sub \<and> list_all (level_ok fs) lg"
  shows "scan_entries fuel fs d hr entries tree = Some (Inr t', lg) \<Longrightarrow>
         only_files_and_dirs fs p tree \<Longrightarrow>
         \<forall>e \<in> set entries. \<exists>n. e = p @ [n] \<Longrightarrow>
         only_files_and_dirs fs p t' \<and> list_all (level_ok fs) lg
         \<and> (\<forall>e \<in> set entries. special fs e \<longrightarrow> Debug (Skipping_entry e) \<in> set lg)"
proof (induction entries arbitrary: tree lg)
  case Nil
  then show ?case by simp
next
  case (Cons entry entries)
  obtain n where n: "entry = p @ [n]" using Cons.prems(3) by auto
  have rest: "\<forall>e \<in> set entries. \<exists>n. e = p @ [n]" using Cons.prems(3) by simp
  from Cons.prems(1) show ?case
  proof (cases rule: scan_entries_Cons_cases)
    case (subdir sub l1 l2)
    have g: "only_files_and_dirs fs entry sub \<and> list_all (level_ok fs) l1"
      using subdir(1,2) by (rule gd)
    have "only_files_and_dirs fs p (dict_set tree (name entry) (PDict sub))"
      using Cons.prems(2) g subdir(1) n by (intro only_files_and_dirs_dict_set) simp_all
    from Cons.IH [OF subdir(3) this rest] show ?thesis
      using g subdir(1,4) by (auto simp: special_def)
  next
    case (regular info l1 l2)
    have l1: "list_all (level_ok fs) l1"
      using regular(2,3)
      by (auto simp: get_file_info_def except_oserror_def special_def
          split: if_splits sum.splits prod.splits py_error.splits)
    have "only_files_and_dirs fs p (dict_set tree (name entry) info)"
      using Cons.prems(2) regular(1,2) n by (intro only_files_and_dirs_dict_set) simp_all
    from Cons.IH [OF regular(4) this rest] show ?thesis
      using l1 regular(2,5) by (auto simp: special_def)
  next
    case (skipped l2)
    from Cons.IH [OF skipped(3) Cons.prems(2) rest] show ?thesis
      using skipped(1,2,4) by (auto simp: special_def)
  qed
qed

lemma get_dir_tree_only_files_and_dirs:
  assumes wf: "\<forall>q. \<not> (path_is_dir fs q = Inr True \<and> path_is_file fs q = Inr True)"
  shows "get_dir_tree fuel fs path depth human_readable logger = Some (Inr tree, lg) \<Longrightarrow>
         as_path path = Some p \<Longrightarrow> path_is_dir fs p = Inr True \<Longrightarrow>
         only_files_and_dirs fs p tree \<and> list_all (level_ok fs) lg
         \<and> (\<forall>d names. as_int depth = Some d \<and> d \<noteq> 0 \<and> path_iterdir fs p = Inr names \<longrightarrow>
              (\<forall>n \<in> set names. special fs (p @ [n]) \<longrightarrow>
                 n \<notin> fst ` set tree \<and> Debug (Skipping_entry (p @ [n])) \<in> set lg))"
proof (induction fuel arbitrary: path depth human_readable logger tree lg p)
  case 0
  then show ?case by simp
next
  case (Suc fuel)
  have nf: "path_is_file fs p \<noteq> Inr True" using wf Suc.prems(3) by blast
  from Suc.prems(1) show ?case
  proof (cases rule: get_dir_tree_Suc_cases)
    case (single p' d hr info)
    then show ?thesis using Suc.prems(2) nf by simp
  next
    case (zero p')
    then show ?thesis by simp
  next
    case (denied p' d)
    then show ?thesis using Suc.prems(2,3) by (simp add: special_def)
  next
    case (listed p' d hr names)
    have p': "p' = p" using listed(1) Suc.prems(2) by simp
    let ?es = "sort_key (\<lambda>q. str_lower fs (name q)) (map (\<lambda>n. p @ [n]) names)"
    have es: "\<forall>e \<in> set ?es. \<exists>n. e = p @ [n]" by auto
    have sc: "scan_entries fuel fs d hr ?es [] = Some (Inr tree, lg)"
      using listed(9) p' by simp
    have r: "only_files_and_dirs fs p tree \<and> list_all (level_ok fs) lg
         \<and> (\<forall>e \<in> set ?es. special fs e \<longrightarrow> Debug (Skipping_entry e) \<in> set lg)"
    proof (rule scan_entries_only_files_and_dirs [OF _ sc _ es])
      fix entry sub l
      assume "path_is_dir fs entry = Inr True"
        and "get_dir_tree fuel fs (PyPath entry) (PyInt (if d > 0 then d - 1 else - 1))
               (PyBool hr) PyLogger = Some (Inr sub, l)"
      then show "only_files_and_dirs fs entry sub \<and> list_all (level_ok fs) l"
        using Suc.IH [of "PyPath entry" _ "PyBool hr" PyLogger sub l entry] by simp
    qed simp
    then have "\<forall>n \<in> set names. special fs (p @ [n]) \<longrightarrow>
                 n \<notin> fst ` set tree \<and> Debug (Skipping_entry (p @ [n])) \<in> set lg"
      using only_files_and_dirs_keys [of fs p tree] by auto
    then show ?thesis using r listed(8) p' by auto
  qed
qed

text \<open>
  Claim C8.  On a filesystem where no entry is both a directory and a regular file,
  a tree returned for a directory holds at every level only children that are
  directories or regular files; the debug records are about special entries and no
  warning is; and every special child of the root that was listed is absent from
  the tree and has its debug record.
\<close>

theorem get_dir_tree_skips_special:
  assumes "as_path path = Some p" and "path_is_dir fs p = Inr True"
    and "\<forall>q. \<not> (path_is_dir fs q = Inr True \<and> path_is_file fs q = Inr True)"
    and "get_dir_tree fuel fs path depth human_readable logger = Some (Inr tree, lg)"
  shows "only_files_and_dirs fs p tree \<and> list_all (level_ok fs) lg
         \<and> (\<forall>d names. as_int depth = Some d \<and> d \<noteq> 0 \<and> path_iterdir fs p = Inr names \<longrightarrow>
              (\<forall>n \<in> set names. special fs (p @ [n]) \<longrightarrow>
                 n \<notin> fst ` set tree \<and> Debug (Skipping_entry (p @ [n])) \<in> set lg))"
  using get_dir_tree_only_files_and_dirs [OF assms(3,4,1,2)] .

lemma truncate_Nil [simp]: "truncate_tree n [] = []"
  by (cases n) simp_all

lemma map_dict_set:
  "map (\<lambda>(k, v). (k, g v)) (dict_set t k v) = dict_set (map (\<lambda>(k, v). (k, g v)) t) k (g v)"
  by (induction t) auto

lemma scan_entries_dicts:
  "scan_entries fuel fs d hr entries tree = Some (Inr t', lg) \<Longrightarrow>
   list_all (\<lambda>(k, v). is_dict v) tree \<Longrightarrow> list_all (\<lambda>(k, v). is_dict v) t'"
proof (induction entries arbitrary: tree lg)
  case Nil
  then show ?case by simp
next
  case (Cons entry entries)
  from Cons.prems(1) show ?case
  proof (cases rule: scan_entries_Cons_cases)
    case (subdir sub l1 l2)
    have "list_all (\<lambda>(k, v). is_dict v) (dict_set tree (name entry) (PDict sub))"
      using Cons.prems(2) by (intro list_all_dict_set) simp_all
    then show ?thesis using Cons.IH [OF subdir(3)] by simp
  next
    case (regular info l1 l2)
    have "is_dict info" using get_file_info_ordered [OF regular(3)] by simp
    then have "list_all (\<lambda>(k, v). is_dict v) (dict_set tree (name entry) info)"
      using Cons.prems(2) by (intro list_all_dict_set) simp_all
    then show ?thesis using Cons.IH [OF regular(4)] by simp
  next
    case (skipped l2)
    then show ?thesis using Cons.IH [OF skipped(3) Cons.prems(2)] by simp
  qed
qed

lemma get_dir_tree_dicts:
  assumes "get_dir_tree fuel fs path depth human_readable logger = Some (Inr tree, lg)"
  shows "list_all (\<lambda>(k, v). is_dict v) tree"
proof (cases fuel)
  case 0
  with assms show ?thesis by simp
next
  case (Suc fuel')
  from assms [unfolded Suc] show ?thesis
  proof (cases rule: get_dir_tree_Suc_cases)
    case (single p d hr info)
    then show ?thesis using get_file_info_ordered [OF single(7)] by simp
  next
    case (listed p d hr names)
    then show ?thesis using scan_entries_dicts [OF listed(9)] by simp
  qed simp_all
qed

lemma truncate_value_info:
  assumes "get_file_info fs (PyPath p) hr = (Inr info, lg)"
  shows "truncate_value n info = info"
  using get_file_info_cases [OF assms] by (auto simp: list_all_iff)

lemma scan_entries_truncate:
  assumes gd: "\<And>entry sub lg. path_is_dir fs entry = Inr True \<Longrightarrow>
                 get_dir_tree fuel fs (PyPath entry) (PyInt (- 1)) (PyBool hr) PyLogger
                   = Some (Inr sub, lg) \<Longrightarrow>
                 \<exists>lg'. get_dir_tree fuel fs (PyPath entry) (PyInt (int n)) (PyBool hr) PyLogger
                   = Some (Inr (truncate_tree n sub), lg')"
  shows "scan_entries fuel fs (- 1) hr entries tree = Some (Inr t', lg) \<Longrightarrow>
         \<exists>lg'. scan_entries fuel fs (int (Suc n)) hr entries
                  (map (\<lambda>(k, v). (k, truncate_value n v)) tree)
                = Some (Inr (map (\<lambda>(k, v). (k, truncate_value n v)) t'), lg')"
proof (induction entries arbitrary: tree lg)
  case Nil
  then show ?case by simp
next
  case (Cons entry entries)
  from Cons.prems(1) show ?case
  proof (cases rule: scan_entries_Cons_cases)
    case (subdir sub l1 l2)
    have g1: "get_dir_tree fuel fs (PyPath entry) (PyInt (- 1)) (PyBool hr) PyLogger
               = Some (Inr sub, l1)"
      using subdir(2) by simp
    obtain l1' where g: "get_dir_tree fuel fs (PyPath entry) (PyInt (int n)) (PyBool hr) PyLogger
               = Some (Inr (truncate_tree n sub), l1')"
      using gd [OF subdir(1) g1] by blast
    have "list_all (\<lambda>(k, v). is_dict v) sub" using g1 by (rule get_dir_tree_dicts)
    then have tv: "truncate_value n (PDict sub) = PDict (truncate_tree n sub)" by simp
    obtain l2' where "scan_entries fuel fs (int (Suc n)) hr entries
                  (dict_set (map (\<lambda>(k, v). (k, truncate_value n v)) tree) (name entry)
                     (PDict (truncate_tree n sub)))
                = Some (Inr (map (\<lambda>(k, v). (k, truncate_value n v)) t'), l2')"
      using Cons.IH [OF subdir(3), unfolded map_dict_set tv] by blast
    then show ?thesis
      using subdir(1) g by (simp del: get_dir_tree.simps truncate_value.simps)
  next
    case (regular info l1 l2)
    have tv: "truncate_value n info = info" using regular(3) by (rule truncate_value_info)
    obtain l2' where "scan_entries fuel fs (int (Suc n)) hr entries
                  (dict_set (map (\<lambda>(k, v). (k, truncate_value n v)) tree) (name entry) info)
                = Some (Inr (map (\<lambda>(k, v). (k, truncate_value n v)) t'), l2')"
      using Cons.IH [OF regular(4), unfolded map_dict_set tv] by blast
    then show ?thesis
      using regular(1,2,3) by (simp del: get_dir_tree.simps truncate_value.simps)
  next
    case (skipped l2)
    obtain l2' where "scan_entries fuel fs (int (Suc n)) hr entries
                  (map (\<lambda>(k, v). (k, truncate_value n v)) tree)
                = Some (Inr (map (\<lambda>(k, v). (k, truncate_value n v)) t'), l2')"
      using Cons.IH [OF skipped(3)] by blast
    then show ?thesis
      using skipped(1,2) by (simp del: get_dir_tree.simps truncate_value.simps)
  qed
qed

lemma get_dir_tree_truncate:
  assumes wf: "\<forall>q. \<not> (path_is_dir fs q = Inr True \<and> path_is_file fs q = Inr True)"
  shows "get_dir_tree fuel fs (PyPath p) (PyInt (- 1)) (PyBool hr) PyLogger = Some (Inr t, lg) \<Longrightarrow>
         path_is_file fs p \<noteq> Inr True \<Longrightarrow>
         \<exists>lg'. get_dir_tree fuel fs (PyPath p) (PyInt (int n)) (PyBool hr) PyLogger
                  = Some (Inr (truncate_tree n t), lg')"
proof (induction fuel arbitrary: p t lg n)
  case 0
  then show ?case by simp
next
  case (Suc fuel)
  from Suc.prems(1) show ?case
  proof (cases rule: get_dir_tree_Suc_cases)
    case (single p' d hr' info)
    then show ?thesis using Suc.prems(2) by simp
  next
    case (zero p')
    then show ?thesis by simp
  next
    case (denied p' d)
    then show ?thesis by (cases n) simp_all
  next
    case (listed p' d hr' names)
    have eq: "p' = p" "d = - 1" "hr' = hr" using listed(1,2,5) by simp_all
    let ?es = "sort_key (\<lambda>q. str_lower fs (name q)) (map (\<lambda>n. p @ [n]) names)"
    have sc: "scan_entries fuel fs (- 1) hr ?es [] = Some (Inr t, lg)"
      using listed(9) eq by simp
    show ?thesis
    proof (cases n)
      case 0
      then show ?thesis using listed(6,7) eq by simp
    next
      case (Suc m)
      have "\<exists>lg'. scan_entries fuel fs (int (Suc m)) hr ?es
                  (map (\<lambda>(k, v). (k, truncate_value m v)) [])
                = Some (Inr (map (\<lambda>(k, v). (k, truncate_value m v)) t), lg')"
      proof (rule scan_entries_truncate [OF _ sc])
        fix entry sub l
        assume "path_is_dir fs entry = Inr True"
          and "get_dir_tree fuel fs (PyPath entry) (PyInt (- 1)) (PyBool hr) PyLogger
                 = Some (Inr sub, l)"
        then show "\<exists>lg'. get_dir_tree fuel fs (PyPath entry) (PyInt (int m)) (PyBool hr) PyLogger
                 = Some (Inr (truncate_tree m sub), lg')"
          using wf by (intro Suc.IH) auto
      qed
      then show ?thesis using listed(6,7,8) eq Suc by simp
    qed
  qed
qed

text \<open>
  Claim C3.  For a directory \<open>p\<close>, on a filesystem where no entry is both a directory
  and a regular file: depth 0 gives the empty node, and whenever the unlimited build
  (depth \<open>- 1\<close>) returns a tree, the build with depth \<open>n\<close> returns that tree cut after
  \<open>n\<close> levels, the directories at level \<open>n\<close> present as keys of empty nodes.
\<close>

theorem get_dir_tree_depth_law:
  assumes "path_exists fs p = Inr True" and "path_is_file fs p = Inr False"
    and "\<forall>q. \<not> (path_is_dir fs q = Inr True \<and> path_is_file fs q = Inr True)"
  shows "get_dir_tree (Suc fuel) fs (PyPath p) (PyInt 0) (PyBool hr) PyLogger = Some (Inr [], [])
       \<and> (\<forall>t lg. get_dir_tree fuel fs (PyPath p) (PyInt (- 1)) (PyBool hr) PyLogger
                    = Some (Inr t, lg) \<longrightarrow>
            (\<exists>lg'. get_dir_tree fuel fs (PyPath p) (PyInt (int n)) (PyBool hr) PyLogger
                    = Some (Inr (truncate_tree n t), lg')))"
proof -
  have nf: "path_is_file fs p \<noteq> Inr True" using assms(2) by simp
  show ?thesis
    using assms(1,2) get_dir_tree_truncate [OF assms(3) _ nf] by auto
qed

text \<open>
  Claim C8, witness: the socket \<open>r/sock\<close> of the example is listed, skipped and logged
  at debug level.
\<close>

theorem get_dir_tree_skips_special_witness:
  "special fs_example [''r'', ''sock'']
   \<and> only_files_and_dirs fs_example [''r'']
        [(''a.txt'', PDict [(''size'', PInt 5),
                     (''modified_time'', PFloat (Float_repr ''1762813800.5''))]),
                  (''b'', PDict []),
                  (''Docs'', PDict [(''x'', PDict [(''size'', PInt 2048),
                     (''modified_time'', PFloat (Float_repr ''1762813860.0''))])])]
   \<and> list_all (level_ok fs_example)
        [Warning (Permission_denied [''r'', ''b'']), Debug (Skipping_entry [''r'', ''sock''])]
   \<and> ''sock'' \<notin> set [''a.txt'', ''b'', ''Docs'']
   \<and> Debug (Skipping_entry [''r'', ''sock''])
        \<in> set [Warning (Permission_denied [''r'', ''b'']), Debug (Skipping_entry [''r'', ''sock''])]"
proof -
  have wf: "\<forall>q. \<not> (path_is_dir fs_example q = Inr True
                \<and> path_is_file fs_example q = Inr True)"
    by (auto simp: fs_example_def)
  have dir: "path_is_dir fs_example [''r''] = Inr True" by (simp add: fs_example_def)
  have sp: "special fs_example [''r'', ''sock'']" by (simp add: special_def fs_example_def)
  have ls: "path_iterdir fs_example [''r''] = Inr [''sock'', ''b'', ''a.txt'', ''Docs'']"
    by (simp add: fs_example_def)
  have ev: "get_dir_tree 3 fs_example (PyPath [''r'']) (PyInt (- 1)) (PyBool False) PyLogger
     = Some (Inr [(''a.txt'', PDict [(''size'', PInt 5),
                     (''modified_time'', PFloat (Float_repr ''1762813800.5''))]),
                  (''b'', PDict []),
                  (''Docs'', PDict [(''x'', PDict [(''size'', PInt 2048),
                     (''modified_time'', PFloat (Float_repr ''1762813860.0''))])])],
             [Warning (Permission_denied [''r'', ''b'']), Debug (Skipping_entry [''r'', ''sock''])])"
    by (rule fs_example_tree)
  have p: "as_path (PyPath [''r'']) = Some [''r'']" by simp
  from get_dir_tree_skips_special [OF p dir wf ev] sp ls show ?thesis
    by auto
qed

text \<open>
  Claim C3, witness: the example at depth 0 and at depth 1, where \<open>Docs\<close> is kept as
  an empty node.
\<close>

theorem get_dir_tree_depth_law_witness:
  "get_dir_tree (Suc 3) fs_example (PyPath [''r'']) (PyInt 0) (PyBool False) PyLogger
     = Some (Inr [], [])
   \<and> (\<exists>lg'. get_dir_tree 3 fs_example (PyPath [''r'']) (PyInt (int 1)) (PyBool False) PyLogger
     = Some (Inr [(''a.txt'', PDict [(''size'', PInt 5),
                     (''modified_time'', PFloat (Float_repr ''1762813800.5''))]),
                  (''b'', PDict []), (''Docs'', PDict [])], lg'))"
proof -
  have wf: "\<forall>q. \<not> (path_is_dir fs_example q = Inr True
                \<and> path_is_file fs_example q = Inr True)"
    by (auto simp: fs_example_def)
  have ex: "path_exists fs_example [''r''] = Inr True"
    "path_is_file fs_example [''r''] = Inr False"
    by (simp_all add: fs_example_def)
  have ev: "get_dir_tree 3 fs_example (PyPath [''r'']) (PyInt (- 1)) (PyBool False) PyLogger
     = Some (Inr [(''a.txt'', PDict [(''size'', PInt 5),
                     (''modified_time'', PFloat (Float_repr ''1762813800.5''))]),
                  (''b'', PDict []),
                  (''Docs'', PDict [(''x'', PDict [(''size'', PInt 2048),
                     (''modified_time'', PFloat (Float_repr ''1762813860.0''))])])],
             [Warning (Permission_denied [''r'', ''b'']), Debug (Skipping_entry [''r'', ''sock''])])"
    by (rule fs_example_tree)
  have tr: "truncate_tree 1
              [(''a.txt'', PDict [(''size'', PInt 5),
                     (''modified_time'', PFloat (Float_repr ''1762813800.5''))]),
                  (''b'', PDict []),
                  (''Docs'', PDict [(''x'', PDict [(''size'', PInt 2048),
                     (''modified_time'', PFloat (Float_repr ''1762813860.0''))])])]
            = [(''a.txt'', PDict [(''size'', PInt 5),
                     (''modified_time'', PFloat (Float_repr ''1762813800.5''))]),
                  (''b'', PDict []), (''Docs'', PDict [])]"
    by code_simp
  from get_dir_tree_depth_law [OF ex wf, where fuel = 3 and hr = False and n = 1] ev tr
  show ?thesis
    by (simp del: get_dir_tree.simps)
qed

section \<open>Properties of dir_tree_to_json\<close>

lemma unhex_hex_digit: "k < 16 \<Longrightarrow> unhex (hex_digit k) = Some k"
proof -
  assume "k < 16"
  then have "k = 0 \<or> k = 1 \<or> k = 2 \<or> k = 3 \<or> k = 4 \<or> k = 5 \<or> k = 6 \<or> k = 7 \<or> k = 8
      \<or> k = 9 \<or> k = 10 \<or> k = 11 \<or> k = 12 \<or> k = 13 \<or> k = 14 \<or> k = 15" by arith
  then show ?thesis by (elim disjE) (simp_all add: hex_digit_def unhex_def)
qed

lemma unhex_zero: "unhex CHR ''0'' = Some 0"
  by (simp add: unhex_def)

lemma control_char_rebuild:
  "char_of (16 * (of_char c div 16) + of_char c mod (16 :: nat)) = c"
  by simp

lemma parse_string_escape_char:
  "parse_string (escape_char c @ rest) = map_option (\<lambda>(s, r). (c # s, r)) (parse_string rest)"
proof -
  consider (bs) "c = CHR 0x5C" | (dq) "c = CHR 0x22" | (b) "c = CHR 0x08" | (f) "c = CHR 0x0C"
    | (n) "c = CHR 0x0A" | (r) "c = CHR 0x0D" | (t) "c = CHR 0x09"
    | (ctl) "c \<notin> set [CHR 0x5C, CHR 0x22, CHR 0x08, CHR 0x0C, CHR 0x0A, CHR 0x0D, CHR 0x09]"
            "(of_char c :: nat) < 32"
    | (plain) "c \<notin> set [CHR 0x5C, CHR 0x22, CHR 0x08, CHR 0x0C, CHR 0x0A, CHR 0x0D, CHR 0x09]"
            "\<not> (of_char c :: nat) < 32"
    by auto
  then show ?thesis
  proof cases
    case ctl
    have d: "of_char c div 16 < (16::nat)" "of_char c mod 16 < (16::nat)"
      using ctl(2) by simp_all
    show ?thesis
      using ctl
      by (simp add: escape_char_def unhex_zero unhex_hex_digit [OF d(1)] unhex_hex_digit [OF d(2)]
          control_char_rebuild)
  qed (simp_all add: escape_char_def unescape_def)
qed

lemma parse_string_escaped:
  "parse_string (concat (map escape_char s) @ CHR 0x22 # rest) = Some (s, rest)"
  by (induction s) (simp_all add: parse_string_escape_char del: parse_string.simps,
      simp)

lemma digit_char_digit: "0 \<le> d \<Longrightarrow> d < 10 \<Longrightarrow> is_digit (digit_char d) \<and> digit_value (digit_char d) = d"
proof -
  assume "0 \<le> d" "d < 10"
  then have "d = 0 \<or> d = 1 \<or> d = 2 \<or> d = 3 \<or> d = 4 \<or> d = 5 \<or> d = 6 \<or> d = 7 \<or> d = 8 \<or> d = 9"
    by arith
  then show ?thesis
    by (elim disjE) (simp_all add: digit_char_def is_digit_def digit_value_def)
qed

lemma str_nat_digits:
  "0 \<le> n \<Longrightarrow> str_nat n \<noteq> [] \<and> list_all is_digit (str_nat n) \<and> int_of_digits (str_nat n) = n"
proof (induction n rule: str_nat.induct)
  case (1 n)
  show ?case
  proof (cases "n < 10")
    case True
    then show ?thesis
      using "1.prems" digit_char_digit [of n]
      by (subst (1 2 3) str_nat.simps) (simp add: int_of_digits_def)
  next
    case False
    have ih: "str_nat (n div 10) \<noteq> [] \<and> list_all is_digit (str_nat (n div 10))
              \<and> int_of_digits (str_nat (n div 10)) = n div 10"
      using False "1.prems" by (intro "1.IH") simp_all
    have d: "is_digit (digit_char (n mod 10)) \<and> digit_value (digit_char (n mod 10)) = n mod 10"
      by (rule digit_char_digit) simp_all
    have s: "str_nat n = str_nat (n div 10) @ [digit_char (n mod 10)]"
      using False by (subst str_nat.simps) simp
    show ?thesis
      using ih d unfolding s by (simp add: int_of_digits_def)
  qed
qed

lemma is_digit_num_char: "is_digit c \<Longrightarrow> is_num_char c"
  by (simp add: is_num_char_def)

lemma is_digit_not_minus: "is_digit c \<Longrightarrow> c \<noteq> CHR ''-''"
  by (auto simp: is_digit_def)

lemma str_int_literal:
  "str_int i \<noteq> [] \<and> list_all is_num_char (str_int i) \<and> is_int_literal (str_int i)
   \<and> int_of_literal (str_int i) = i"
proof (cases "i < 0")
  case True
  then have "str_nat (- i) \<noteq> [] \<and> list_all is_digit (str_nat (- i))
             \<and> int_of_digits (str_nat (- i)) = - i"
    by (intro str_nat_digits) simp
  then show ?thesis
    using True
    by (auto simp: str_int_def is_int_literal_def int_of_literal_def is_num_char_def
        list_all_iff)
next
  case False
  then have n: "str_nat i \<noteq> [] \<and> list_all is_digit (str_nat i) \<and> int_of_digits (str_nat i) = i"
    by (intro str_nat_digits) simp
  then obtain c cs where c: "str_nat i = c # cs" by (cases "str_nat i") auto
  then have "c \<noteq> CHR ''-''" using n is_digit_not_minus by auto
  then show ?thesis
    using False n c
    by (auto simp: str_int_def is_int_literal_def int_of_literal_def is_digit_num_char
        list_all_iff)
qed

lemma take_number:
  assumes "list_all is_num_char tok" and "ends_number rest"
  shows "takeWhile is_num_char (tok @ rest) = tok" "dropWhile is_num_char (tok @ rest) = rest"
  using assms
  by (auto simp: takeWhile_append dropWhile_append list_all_iff ends_number_def
      split: list.splits)

lemma parse_number_token:
  assumes "tok \<noteq> []" and "list_all is_num_char tok" and "ends_number rest"
  shows "parse_number (tok @ rest) =
         Some (if is_int_literal tok then PInt (int_of_literal tok) else PFloat (Float_repr tok),
               rest)"
  using assms(1) by (simp add: parse_number_def take_number [OF assms(2,3)])

lemma skip_ws_newline_indent [simp]: "skip_ws (newline_indent n @ s) = skip_ws s"
  by (simp add: skip_ws_def newline_indent_def dropWhile_append is_ws_def)

lemma skip_ws_prefix: "list_all is_ws w \<Longrightarrow> skip_ws (w @ s) = skip_ws s"
  by (simp add: skip_ws_def dropWhile_append list_all_iff)

lemma skip_ws_start: "\<not> is_ws c \<Longrightarrow> skip_ws (c # s) = c # s"
  by (simp add: skip_ws_def)

lemma num_char_start:
  "is_num_char c \<Longrightarrow> \<not> is_ws c \<and> c \<noteq> CHR ''{'' \<and> c \<noteq> CHR 0x22"
  by (auto simp: is_num_char_def is_digit_def is_ws_def)

lemma parse_value_number:
  assumes "tok \<noteq> []" and "list_all is_num_char tok" and "ends_number rest"
    and "list_all is_ws w"
  shows "parse_value (Suc f) (w @ tok @ rest) =
         Some (if is_int_literal tok then PInt (int_of_literal tok) else PFloat (Float_repr tok),
               rest)"
proof -
  obtain c cs where tok: "tok = c # cs" using assms(1) by (cases tok) auto
  have c: "\<not> is_ws c \<and> c \<noteq> CHR ''{'' \<and> c \<noteq> CHR 0x22"
    using assms(2) tok by (intro num_char_start) simp
  have "skip_ws (w @ tok @ rest) = c # cs @ rest"
    using c by (simp add: skip_ws_prefix [OF assms(4)] tok skip_ws_start)
  then show ?thesis
    using c parse_number_token [OF assms(1,2,3)] by (simp add: tok)
qed

lemma parse_value_string:
  assumes "list_all is_ws w"
  shows "parse_value (Suc f) (w @ encode_string s @ rest) = Some (PStr s, rest)"
proof -
  have "skip_ws (w @ encode_string s @ rest)
        = CHR 0x22 # concat (map escape_char s) @ CHR 0x22 # rest"
    by (simp add: skip_ws_prefix [OF assms] encode_string_def skip_ws_start is_ws_def)
  then show ?thesis by (simp add: parse_string_escaped del: parse_string.simps)
qed

lemma parse_value_empty_dict:
  assumes "list_all is_ws w"
  shows "parse_value (Suc f) (w @ ''{}'' @ rest) = Some (PDict [], rest)"
proof -
  have "skip_ws (w @ ''{}'' @ rest) = ''{}'' @ rest"
    by (simp add: skip_ws_prefix [OF assms] skip_ws_start is_ws_def)
  then show ?thesis by (simp add: skip_ws_start is_ws_def)
qed

lemma parse_value_dict:
  assumes "list_all is_ws w"
  shows "parse_value (Suc f) (w @ ''{'' @ newline_indent n @ encode_string k @ s)
         = map_option (\<lambda>(m, r). (PDict m, r)) (parse_members f [] (encode_string k @ s))"
proof -
  have "skip_ws (w @ ''{'' @ newline_indent n @ encode_string k @ s)
        = CHR ''{'' # newline_indent n @ encode_string k @ s"
    by (simp add: skip_ws_prefix [OF assms] skip_ws_start is_ws_def)
  moreover have "skip_ws (newline_indent n @ encode_string k @ s) = encode_string k @ s"
    by (simp add: encode_string_def skip_ws_start is_ws_def)
  ultimately show ?thesis
    by (simp add: encode_string_def del: parse_members.simps)
qed

lemma parse_members_step:
  assumes "list_all is_ws w"
    and "parse_value f (CHR '' '' # body) = Some (v, tail)"
  shows "parse_members (Suc f) acc (w @ encode_string k @ '': '' @ body)
         = (case skip_ws tail of
              [] \<Rightarrow> None
            | c2 # r3 \<Rightarrow>
                if c2 = CHR '','' then parse_members f (dict_set acc k v) r3
                else if c2 = CHR ''}'' then Some (dict_set acc k v, r3)
                else None)"
proof -
  have e1: "skip_ws (w @ encode_string k @ CHR '':'' # CHR '' '' # body)
        = CHR 0x22 # concat (map escape_char k) @ CHR 0x22 # CHR '':'' # CHR '' '' # body"
    by (simp add: skip_ws_prefix [OF assms(1)] encode_string_def skip_ws_start is_ws_def)
  have e2: "skip_ws (CHR '':'' # CHR '' '' # body) = CHR '':'' # CHR '' '' # body"
    by (simp add: skip_ws_start is_ws_def)
  show ?thesis
    by (subst parse_members.simps(2))
      (simp add: e1 e2 assms(2) parse_string_escaped
        del: parse_string.simps parse_value.simps parse_members.simps cong: list.case_cong)
qed

lemma dict_set_new: "k \<notin> fst ` set acc \<Longrightarrow> dict_set acc k v = acc @ [(k, v)]"
  by (induction acc) auto

lemma is_ws_newline_indent: "list_all is_ws (newline_indent n)"
  by (simp add: newline_indent_def is_ws_def list_all_iff)

lemma ends_number_items:
  "ends_number (encode_items False l items @ newline_indent l0 @ ''}'' @ rest)"
  by (cases items)
    (auto simp: ends_number_def newline_indent_def is_num_char_def is_digit_def)

lemma skip_ws_close: "skip_ws (newline_indent l0 @ ''}'' @ rest) = CHR ''}'' # rest"
  by (simp add: skip_ws_start is_ws_def)

lemma parse_members_encode:
  assumes ih: "\<And>k v f w rest lvl. (k, v) \<in> set kvs \<Longrightarrow> wf_json v \<Longrightarrow> cost v \<le> f \<Longrightarrow>
                 list_all is_ws w \<Longrightarrow> ends_number rest \<Longrightarrow>
                 parse_value f (w @ encode_value lvl v @ rest) = Some (v, rest)"
  shows "set ((k, v) # items) \<subseteq> set kvs \<Longrightarrow> distinct (map fst acc @ k # map fst items) \<Longrightarrow>
         wf_json v \<Longrightarrow> list_all (\<lambda>(k, v). wf_json v) items \<Longrightarrow>
         cost_items ((k, v) # items) \<le> f \<Longrightarrow> list_all is_ws w \<Longrightarrow>
         parse_members f acc
           (w @ encode_string k @ '': '' @ encode_value l v @ encode_items False l items
              @ newline_indent l0 @ ''}'' @ rest)
         = Some (acc @ (k, v) # items, rest)"
proof (induction items arbitrary: k v acc f w)
  case Nil
  obtain f' where f: "f = Suc f'" and c: "cost v \<le> f'"
    using Nil.prems(5) by (cases f) simp_all
  let ?tail = "encode_items False l [] @ newline_indent l0 @ ''}'' @ rest"
  have "parse_value f' ('' '' @ encode_value l v @ ?tail) = Some (v, ?tail)"
    using Nil.prems(1,3) c by (intro ih [of k] ends_number_items) (simp_all add: is_ws_def)
  then have pv: "parse_value f' (CHR '' '' # (encode_value l v @ ?tail)) = Some (v, ?tail)"
    by simp
  have k: "k \<notin> fst ` set acc" using Nil.prems(2) by auto
  show ?case
    unfolding f parse_members_step [OF Nil.prems(6) pv, of acc k]
    by (simp add: skip_ws_start is_ws_def dict_set_new [OF k])
next
  case (Cons kv items)
  obtain k2 v2 where kv: "kv = (k2, v2)" by (cases kv)
  obtain f' where f: "f = Suc f'" and c: "cost v \<le> f'"
    and c2: "cost_items ((k2, v2) # items) \<le> f'"
    using Cons.prems(5) kv by (cases f) simp_all
  let ?next = "encode_string k2 @ '': '' @ encode_value l v2 @ encode_items False l items
              @ newline_indent l0 @ ''}'' @ rest"
  let ?tail = "encode_items False l (kv # items) @ newline_indent l0 @ ''}'' @ rest"
  have t: "?tail = CHR '','' # newline_indent l @ ?next" by (simp add: kv)
  have "parse_value f' ('' '' @ encode_value l v @ ?tail) = Some (v, ?tail)"
    using Cons.prems(1,3) c by (intro ih [of k] ends_number_items) (simp_all add: is_ws_def)
  then have pv: "parse_value f' (CHR '' '' # (encode_value l v @ ?tail)) = Some (v, ?tail)"
    by simp
  have k: "k \<notin> fst ` set acc" using Cons.prems(2) by auto
  have sk: "skip_ws ?tail = CHR '','' # newline_indent l @ ?next"
    unfolding t by (simp add: skip_ws_start is_ws_def)
  have "parse_members f' (acc @ [(k, v)]) (newline_indent l @ ?next)
        = Some ((acc @ [(k, v)]) @ (k2, v2) # items, rest)"
    using Cons.prems(1,2,4) c2 kv
    by (intro Cons.IH is_ws_newline_indent) auto
  then show ?case
    unfolding f parse_members_step [OF Cons.prems(6) pv, of acc k] sk
    by (simp add: dict_set_new [OF k] kv)
qed

lemma parse_value_encode:
  "wf_json v \<Longrightarrow> cost v \<le> f \<Longrightarrow> list_all is_ws w \<Longrightarrow> ends_number rest \<Longrightarrow>
   parse_value f (w @ encode_value lvl v @ rest) = Some (v, rest)"
proof (induction v arbitrary: f w rest lvl)
  case (PInt i)
  obtain f' where f: "f = Suc f'" using PInt.prems(2) by (cases f) simp_all
  show ?case
    unfolding f using str_int_literal [of i] PInt.prems(3,4)
    by (simp add: parse_value_number del: parse_value.simps)
next
  case (PFloat x)
  obtain r where x: "x = Float_repr r" by (cases x)
  obtain f' where f: "f = Suc f'" using PFloat.prems(2) by (cases f) simp_all
  show ?case
    unfolding f x using PFloat.prems(1,3,4) x
    by (simp add: parse_value_number float_literal_def del: parse_value.simps)
next
  case (PStr s)
  obtain f' where f: "f = Suc f'" using PStr.prems(2) by (cases f) simp_all
  show ?case
    unfolding f using PStr.prems(3) by (simp add: parse_value_string del: parse_value.simps)
next
  case (PDict kvs)
  obtain f' where f: "f = Suc f'" and c: "cost_items kvs \<le> f'"
    using PDict.prems(2) by (cases f) simp_all
  show ?case
  proof (cases kvs)
    case Nil
    then show ?thesis
      unfolding f using parse_value_empty_dict [OF PDict.prems(3), of f' rest] by simp
  next
    case (Cons kv items)
    obtain k v where kv: "kv = (k, v)" by (cases kv)
    let ?body = "'': '' @ encode_value (Suc lvl) v @ encode_items False (Suc lvl) items
              @ newline_indent lvl @ ''}'' @ rest"
    have ih: "parse_value g (u @ encode_value l y @ rs) = Some (y, rs)"
      if "(x, y) \<in> set kvs" "wf_json y" "cost y \<le> g" "list_all is_ws u" "ends_number rs"
      for x y g u rs l
      using that by (intro PDict.IH [of "(x, y)" y]) simp_all
    have "parse_members f' [] ([] @ encode_string k @ ?body) = Some ([] @ (k, v) # items, rest)"
      using PDict.prems(1) c Cons kv
      by (intro parse_members_encode [where kvs = kvs] ih) auto
    then have m: "parse_members f' [] (encode_string k @ ?body) = Some (kvs, rest)"
      using Cons kv by simp
    have e: "w @ encode_value lvl (PDict kvs) @ rest
             = w @ ''{'' @ newline_indent (Suc lvl) @ encode_string k @ ?body"
      using Cons kv by simp
    show ?thesis
      unfolding f e parse_value_dict [OF PDict.prems(3)] m by simp
  qed
qed

lemma cost_le_length:
  "wf_json v \<Longrightarrow> cost v \<le> length (encode_value lvl v)"
  "list_all (\<lambda>(k, v). wf_json v) kvs \<Longrightarrow> cost_items kvs \<le> length (encode_items first lvl kvs)"
proof (induction lvl v and first lvl kvs rule: encode_value_encode_items.induct)
  case (1 lvl i)
  then show ?case using str_int_literal [of i] by (cases "str_int i") simp_all
next
  case (2 lvl r)
  then show ?case by (cases r) (simp_all add: float_literal_def)
next
  case (3 lvl s)
  then show ?case by (simp add: encode_string_def)
next
  case (4 lvl)
  then show ?case by simp
next
  case (5 lvl kv kvs)
  then show ?case by (cases kv) (simp add: encode_string_def)
next
  case (6 first lvl)
  then show ?case by simp
next
  case (7 first lvl k v kvs)
  then show ?case by (simp add: encode_string_def)
qed

lemma json_loads_dir_tree_to_json:
  assumes "wf_json (PDict tree)"
  shows "json_loads (dir_tree_to_json tree) = Some (PDict tree)"
proof -
  have "cost (PDict tree) \<le> Suc (length (encode_value 0 (PDict tree)))"
    using cost_le_length(1) [OF assms, of 0] by simp
  then have "parse_value (Suc (length (encode_value 0 (PDict tree))))
               ([] @ encode_value 0 (PDict tree) @ []) = Some (PDict tree, [])"
    using assms by (intro parse_value_encode) (simp_all add: ends_number_def)
  then show ?thesis
    by (simp add: json_loads_def dir_tree_to_json_def skip_ws_def del: parse_value.simps)
qed

lemma wf_json_float: "wf_json (PFloat x) = float_ok x"
  by (cases x) simp

lemma scan_entries_values:
  assumes gd: "\<And>entry sub lg.
                 get_dir_tree fuel fs (PyPath entry) (PyInt (if d > 0 then d - 1 else - 1))
                   (PyBool hr) PyLogger = Some (Inr sub, lg) \<Longrightarrow> P (PDict sub)"
    and fi: "\<And>entry info lg. get_file_info fs (PyPath entry) hr = (Inr info, lg) \<Longrightarrow> P info"
  shows "scan_entries fuel fs d hr entries tree = Some (Inr t', lg) \<Longrightarrow>
         list_all (\<lambda>(k, v). P v) tree \<Longrightarrow> list_all (\<lambda>(k, v). P v) t'"
proof (induction entries arbitrary: tree lg)
  case Nil
  then show ?case by simp
next
  case (Cons entry entries)
  from Cons.prems(1) show ?case
  proof (cases rule: scan_entries_Cons_cases)
    case (subdir sub l1 l2)
    have "list_all (\<lambda>(k, v). P v) (dict_set tree (name entry) (PDict sub))"
      using Cons.prems(2) gd [OF subdir(2)] by (intro list_all_dict_set) simp_all
    then show ?thesis using Cons.IH [OF subdir(3)] by simp
  next
    case (regular info l1 l2)
    have "list_all (\<lambda>(k, v). P v) (dict_set tree (name entry) info)"
      using Cons.prems(2) fi [OF regular(3)] by (intro list_all_dict_set) simp_all
    then show ?thesis using Cons.IH [OF regular(4)] by simp
  next
    case (skipped l2)
    then show ?thesis using Cons.IH [OF skipped(3) Cons.prems(2)] by simp
  qed
qed

lemma get_file_info_wf_json:
  assumes "\<forall>p st_size st_mtime. path_stat fs p = Inr (st_size, st_mtime) \<longrightarrow> float_ok st_mtime"
    and "get_file_info fs (PyPath p) hr = (Inr info, lg)"
  shows "wf_json info"
  using assms
  by (auto simp: get_file_info_def except_oserror_def wf_json_float
      split: if_splits sum.splits prod.splits py_error.splits)

lemma get_dir_tree_distinct:
  assumes "get_dir_tree fuel fs path depth human_readable logger = Some (Inr tree, lg)"
  shows "distinct (map fst tree)"
  using get_dir_tree_ordered [OF assms] get_dir_tree_dicts [OF assms] by simp

lemma get_dir_tree_wf_json:
  assumes st: "\<forall>p st_size st_mtime. path_stat fs p = Inr (st_size, st_mtime) \<longrightarrow> float_ok st_mtime"
  shows "get_dir_tree fuel fs path depth human_readable logger = Some (Inr tree, lg) \<Longrightarrow>
         wf_json (PDict tree)"
proof (induction fuel arbitrary: path depth human_readable logger tree lg)
  case 0
  then show ?case by simp
next
  case (Suc fuel)
  have d: "distinct (map fst tree)" using Suc.prems by (rule get_dir_tree_distinct)
  from Suc.prems show ?case
  proof (cases rule: get_dir_tree_Suc_cases)
    case (single p d hr info)
    then show ?thesis using get_file_info_wf_json [OF st single(7)] by simp
  next
    case (listed p d' hr names)
    have "list_all (\<lambda>(k, v). wf_json v) tree"
    proof (rule scan_entries_values [where P = wf_json, OF _ _ listed(9)])
      fix entry sub l
      assume "get_dir_tree fuel fs (PyPath entry) (PyInt (if d' > 0 then d' - 1 else - 1))
                (PyBool hr) PyLogger = Some (Inr sub, l)"
      then show "wf_json (PDict sub)" by (rule Suc.IH)
    next
      fix entry info l
      assume "get_file_info fs (PyPath entry) hr = (Inr info, l)"
      then show "wf_json info" by (rule get_file_info_wf_json [OF st])
    qed simp
    then show ?thesis using d by simp
  qed simp_all
qed

text \<open>
  Claim C7.  On a filesystem whose modification times are written as floats, parsing
  the text that dir_tree_to_json produces for a tree returned by get_dir_tree gives
  back that tree: the same keys in the same order at every level, integers as
  integers, floats as floats and strings as strings.
\<close>

theorem dir_tree_to_json_round_trip:
  assumes "\<forall>p st_size st_mtime. path_stat fs p = Inr (st_size, st_mtime) \<longrightarrow> float_ok st_mtime"
    and "get_dir_tree fuel fs path depth human_readable logger = Some (Inr tree, lg)"
  shows "json_loads (dir_tree_to_json tree) = Some (PDict tree)"
  using get_dir_tree_wf_json [OF assms] by (rule json_loads_dir_tree_to_json)

lemma encode_items_join:
  "encode_items True lvl kvs
   = join ('','' @ newline_indent lvl)
       (map (\<lambda>(k, v). encode_string k @ '': '' @ encode_value lvl v) kvs)"
proof -
  have "encode_items first lvl kvs
        = (if first \<or> kvs = [] then [] else '','' @ newline_indent lvl)
          @ join ('','' @ newline_indent lvl)
              (map (\<lambda>(k, v). encode_string k @ '': '' @ encode_value lvl v) kvs)" for first
  proof (induction kvs arbitrary: first)
    case Nil
    then show ?case by simp
  next
    case (Cons kv kvs)
    obtain k v where kv: "kv = (k, v)" by (cases kv)
    show ?case using Cons.IH [of False] unfolding kv by (cases kvs) simp_all
  qed
  then show ?thesis by simp
qed

text \<open>
  Claim C4.  In every DirectoryNode of a tree returned by get_dir_tree the keys are
  distinct and in ascending order of their lower-case forms, as \<open>str.lower\<close> gives
  them; and dir_tree_to_json writes, at every level, the items of a dictionary in the
  order of the dictionary, separated by a comma and a line break.
\<close>

theorem get_dir_tree_keys_ordered:
  assumes "get_dir_tree fuel fs path depth human_readable logger = Some (Inr tree, lg)"
  shows "ordered_nodes (str_lower fs) (PDict tree)
       \<and> dir_tree_to_json tree = encode_value 0 (PDict tree)
       \<and> (\<forall>lvl kvs. kvs \<noteq> [] \<longrightarrow>
            encode_value lvl (PDict kvs)
            = ''{'' @ newline_indent (Suc lvl)
              @ join ('','' @ newline_indent (Suc lvl))
                  (map (\<lambda>(k, v). encode_string k @ '': '' @ encode_value (Suc lvl) v) kvs)
              @ newline_indent lvl @ ''}'')"
proof -
  have "encode_value lvl (PDict kvs)
            = ''{'' @ newline_indent (Suc lvl)
              @ join ('','' @ newline_indent (Suc lvl))
                  (map (\<lambda>(k, v). encode_string k @ '': '' @ encode_value (Suc lvl) v) kvs)
              @ newline_indent lvl @ ''}''" if "kvs \<noteq> []" for lvl kvs
  proof (cases kvs)
    case Nil
    with that show ?thesis by simp
  next
    case (Cons kv kvs')
    show ?thesis unfolding Cons by (simp only: encode_value.simps encode_items_join)
  qed
  then show ?thesis
    using get_dir_tree_ordered [OF assms] by (simp add: dir_tree_to_json_def)
qed

text \<open>
  Claim C7, witness: the unlimited build of the example.
\<close>

theorem dir_tree_to_json_round_trip_witness:
  "json_loads (dir_tree_to_json
      [(''a.txt'', PDict [(''size'', PInt 5),
                     (''modified_time'', PFloat (Float_repr ''1762813800.5''))]),
       (''b'', PDict []),
       (''Docs'', PDict [(''x'', PDict [(''size'', PInt 2048),
                     (''modified_time'', PFloat (Float_repr ''1762813860.0''))])])])
   = Some (PDict
      [(''a.txt'', PDict [(''size'', PInt 5),
                     (''modified_time'', PFloat (Float_repr ''1762813800.5''))]),
       (''b'', PDict []),
       (''Docs'', PDict [(''x'', PDict [(''size'', PInt 2048),
                     (''modified_time'', PFloat (Float_repr ''1762813860.0''))])])])"
proof -
  have st: "\<forall>p st_size st_mtime. path_stat fs_example p = Inr (st_size, st_mtime)
              \<longrightarrow> float_ok st_mtime"
    by (auto simp: fs_example_def float_literal_def is_int_literal_def is_num_char_def
        is_digit_def split: if_splits)
  show ?thesis
    using st fs_example_tree by (rule dir_tree_to_json_round_trip)
qed

text \<open>
  Claim C4, witness: in the example \<open>Docs\<close> follows \<open>b\<close>, the order of the lower-case
  names and not that of the characters, and the text lists the keys in that order.
\<close>

theorem get_dir_tree_keys_ordered_witness:
  "ordered_nodes (str_lower fs_example) (PDict
      [(''a.txt'', PDict [(''size'', PInt 5),
                     (''modified_time'', PFloat (Float_repr ''1762813800.5''))]),
       (''b'', PDict []),
       (''Docs'', PDict [(''x'', PDict [(''size'', PInt 2048),
                     (''modified_time'', PFloat (Float_repr ''1762813860.0''))])])])
   \<and> str_lower fs_example ''b'' < str_lower fs_example ''Docs'' \<and> ''Docs'' < ''b''
   \<and> encode_value 0 (PDict [(''b'', PDict []), (''Docs'', PDict [])])
     = ''{'' @ [CHR 0x0A] @ ''    '' @ [CHR 0x22] @ ''b'' @ [CHR 0x22] @ '': {},''
       @ [CHR 0x0A] @ ''    '' @ [CHR 0x22] @ ''Docs'' @ [CHR 0x22] @ '': {}''
       @ [CHR 0x0A] @ ''}''"
proof -
  note h = get_dir_tree_keys_ordered [OF fs_example_tree]
  have o: "str_lower fs_example ''b'' < str_lower fs_example ''Docs''" "''Docs'' < ''b''"
    by code_simp+
  have "encode_value 0 (PDict [(''b'', PDict []), (''Docs'', PDict [])])
     = ''{'' @ newline_indent (Suc 0)
              @ join ('','' @ newline_indent (Suc 0))
                  (map (\<lambda>(k, v). encode_string k @ '': '' @ encode_value (Suc 0) v)
                     [(''b'', PDict []), (''Docs'', PDict [])])
              @ newline_indent 0 @ ''}''"
    using h by blast
  also have "\<dots> = ''{'' @ [CHR 0x0A] @ ''    '' @ [CHR 0x22] @ ''b'' @ [CHR 0x22] @ '': {},''
       @ [CHR 0x0A] @ ''    '' @ [CHR 0x22] @ ''Docs'' @ [CHR 0x22] @ '': {}''
       @ [CHR 0x0A] @ ''}''"
    by code_simp
  finally show ?thesis using h o by blast
qed

end
